theory Spec2Isabelle
  imports Complex_Main
begin

section \<open>JavaScript values and the working board\<close>

datatype jsval =
    JNum rat
  | JNotFinite
  | JStr string
  | JBool bool
  | JNull
  | JUndefined
  | JHole
  | JArr "jsval list"

datatype exn = TypeError

datatype brow = RArr "jsval list" | RStr string | RHole

type_synonym board = "brow list"

record result =
  solution :: "board option"
  error :: "string option"

definition failure :: "string \<Rightarrow> result" where
  "failure msg = \<lparr>solution = None, error = Some msg\<rparr>"

definition success :: "board \<Rightarrow> result" where
  "success board = \<lparr>solution = Some board, error = None\<rparr>"

fun slice :: "jsval \<Rightarrow> exn + brow" where
  "slice (JArr xs) = Inr (RArr xs)"
| "slice (JStr s) = Inr (RStr s)"
| "slice _ = Inl TypeError"

fun mapSlice :: "jsval list \<Rightarrow> exn + board" where
  "mapSlice [] = Inr []"
| "mapSlice (x # xs) =
     (if x = JHole
      then (case mapSlice xs of Inl e \<Rightarrow> Inl e | Inr b \<Rightarrow> Inr (RHole # b))
      else (case slice x of
              Inl e \<Rightarrow> Inl e
            | Inr r \<Rightarrow> (case mapSlice xs of Inl e \<Rightarrow> Inl e | Inr b \<Rightarrow> Inr (r # b))))"

fun rowGet :: "brow \<Rightarrow> nat \<Rightarrow> exn + jsval" where
  "rowGet (RArr xs) c = Inr (if c < length xs \<and> xs ! c \<noteq> JHole then xs ! c else JUndefined)"
| "rowGet (RStr s) c = Inr (if c < length s then JStr [s ! c] else JUndefined)"
| "rowGet RHole c = Inl TypeError"

definition getCell :: "board \<Rightarrow> nat \<Rightarrow> nat \<Rightarrow> exn + jsval" where
  "getCell board r c = (if r < length board then rowGet (board ! r) c else Inl TypeError)"

fun rowSet :: "brow \<Rightarrow> nat \<Rightarrow> jsval \<Rightarrow> exn + brow" where
  "rowSet (RArr xs) c v =
     Inr (RArr (if c < length xs then xs[c := v]
                else xs @ replicate (c - length xs) JHole @ [v]))"
| "rowSet (RStr s) c v = Inl TypeError"
| "rowSet RHole c v = Inl TypeError"

definition setCell :: "board \<Rightarrow> nat \<Rightarrow> nat \<Rightarrow> jsval \<Rightarrow> exn + board" where
  "setCell board r c v =
     (if r < length board
      then (case rowSet (board ! r) c v of Inl e \<Rightarrow> Inl e | Inr row \<Rightarrow> Inr (board[r := row]))
      else Inl TypeError)"

fun findCell :: "board \<Rightarrow> rat \<Rightarrow> (nat \<times> nat) list \<Rightarrow> exn + (nat \<times> nat) option" where
  "findCell board v [] = Inr None"
| "findCell board v ((r, c) # rest) =
     (case getCell board r c of
        Inl e \<Rightarrow> Inl e
      | Inr x \<Rightarrow> if x = JNum v then Inr (Some (r, c)) else findCell board v rest)"

definition lineCells :: "nat \<Rightarrow> nat \<Rightarrow> (nat \<times> nat) list" where
  "lineCells row col = concat (map (\<lambda>index. [(row, index), (index, col)]) [0..<9])"

definition boxCells :: "nat \<Rightarrow> nat \<Rightarrow> (nat \<times> nat) list" where
  "boxCells row col =
     (let boxRow = (row div 3) * 3; boxCol = (col div 3) * 3
      in List.product [boxRow..<boxRow + 3] [boxCol..<boxCol + 3])"

definition isValid :: "board \<Rightarrow> nat \<Rightarrow> nat \<Rightarrow> rat \<Rightarrow> exn + bool" where
  "isValid board row col v =
     (case findCell board v (lineCells row col @ boxCells row col) of
        Inl e \<Rightarrow> Inl e
      | Inr None \<Rightarrow> Inr True
      | Inr (Some _) \<Rightarrow> Inr False)"

definition allCells :: "(nat \<times> nat) list" where
  "allCells = List.product [0..<9] [0..<9]"

function solveBoard :: "board \<Rightarrow> exn + bool \<times> board"
  and tryValues :: "board \<Rightarrow> nat \<Rightarrow> nat \<Rightarrow> nat \<Rightarrow> exn + bool \<times> board" where
  "solveBoard board =
     (case findCell board 0 allCells of
        Inl e \<Rightarrow> Inl e
      | Inr None \<Rightarrow> Inr (True, board)
      | Inr (Some (row, col)) \<Rightarrow> tryValues board row col 1)"
| "tryValues board row col v =
     (if v \<le> 9 then
        (case isValid board row col (of_nat v) of
           Inl e \<Rightarrow> Inl e
         | Inr ok \<Rightarrow>
             if ok then
               (case setCell board row col (JNum (of_nat v)) of
                  Inl e \<Rightarrow> Inl e
                | Inr b1 \<Rightarrow>
                    (case solveBoard b1 of
                       Inl e \<Rightarrow> Inl e
                     | Inr (solved, b2) \<Rightarrow>
                         if solved then Inr (True, b2)
                         else (case setCell b2 row col (JNum 0) of
                                 Inl e \<Rightarrow> Inl e
                               | Inr b3 \<Rightarrow> tryValues b3 row col (v + 1))))
             else tryValues board row col (v + 1))
      else Inr (False, board))"
  by pat_completeness auto

subsection \<open>The validation pass of \<open>solveSudoku\<close>\<close>

datatype 'a flow = Throw exn | Return result | Next 'a

definition rangeError :: result where
  "rangeError = failure ''Values must be numbers 0-9.''"

definition conflictError :: result where
  "conflictError = failure ''Puzzle has conflicting values.''"

definition unsolvableError :: result where
  "unsolvableError = failure ''No solution found.''"

definition rowsError :: result where
  "rowsError = failure ''Puzzle must have 9 rows.''"

definition rowError :: "nat \<Rightarrow> result" where
  "rowError row = failure (''Row '' @ [''0123456789'' ! (row + 1)] @ '' must have 9 values.'')"

definition checkCell :: "board \<Rightarrow> nat \<Rightarrow> nat \<Rightarrow> board flow" where
  "checkCell board row col =
     (case getCell board row col of
        Inl e \<Rightarrow> Throw e
      | Inr v \<Rightarrow>
          (case v of
             JNum q \<Rightarrow>
               if q < 0 \<or> q > 9 then Return rangeError
               else if q \<noteq> 0 then
                 (case setCell board row col (JNum 0) of
                    Inl e \<Rightarrow> Throw e
                  | Inr b1 \<Rightarrow>
                      (case isValid b1 row col q of
                         Inl e \<Rightarrow> Throw e
                       | Inr ok \<Rightarrow>
                           if \<not> ok then Return conflictError
                           else (case setCell b1 row col v of
                                   Inl e \<Rightarrow> Throw e
                                 | Inr b2 \<Rightarrow> Next b2)))
               else Next board
           | _ \<Rightarrow> Return rangeError))"

fun checkCols :: "board \<Rightarrow> nat \<Rightarrow> nat list \<Rightarrow> board flow" where
  "checkCols board row [] = Next board"
| "checkCols board row (col # cols) =
     (case checkCell board row col of
        Next b \<Rightarrow> checkCols b row cols
      | Throw e \<Rightarrow> Throw e
      | Return r \<Rightarrow> Return r)"

definition isArray9 :: "board \<Rightarrow> nat \<Rightarrow> bool" where
  "isArray9 board row \<longleftrightarrow>
     row < length board \<and> (case board ! row of RArr xs \<Rightarrow> length xs = 9 | _ \<Rightarrow> False)"

fun checkRows :: "board \<Rightarrow> nat list \<Rightarrow> board flow" where
  "checkRows board [] = Next board"
| "checkRows board (row # rows) =
     (if \<not> isArray9 board row then Return (rowError row)
      else (case checkCols board row [0..<9] of
              Next b \<Rightarrow> checkRows b rows
            | Throw e \<Rightarrow> Throw e
            | Return r \<Rightarrow> Return r))"

definition solveSudoku :: "jsval \<Rightarrow> exn + result" where
  "solveSudoku rows =
     (case rows of
        JArr rs \<Rightarrow>
          if length rs \<noteq> 9 then Inr rowsError
          else (case mapSlice rs of
                  Inl e \<Rightarrow> Inl e
                | Inr board \<Rightarrow>
                    (case checkRows board [0..<9] of
                       Throw e \<Rightarrow> Inl e
                     | Return r \<Rightarrow> Inr r
                     | Next b \<Rightarrow>
                         (case solveBoard b of
                            Inl e \<Rightarrow> Inl e
                          | Inr (solved, b') \<Rightarrow>
                              if \<not> solved then Inr unsolvableError
                              else Inr (success b'))))
      | _ \<Rightarrow> Inr rowsError)"

section \<open>Specification vocabulary\<close>

type_synonym grid = "int list list"

definition jsGrid :: "grid \<Rightarrow> jsval" where
  "jsGrid g = JArr (map (\<lambda>row. JArr (map (\<lambda>n. JNum (of_int n)) row)) g)"

definition boardOf :: "grid \<Rightarrow> board" where
  "boardOf g = map (\<lambda>row. RArr (map (\<lambda>n. JNum (of_int n)) row)) g"

definition isGrid :: "grid \<Rightarrow> bool" where
  "isGrid g \<longleftrightarrow>
     length g = 9 \<and> list_all (\<lambda>row. length row = 9 \<and> list_all (\<lambda>n. 0 \<le> n \<and> n \<le> 9) row) g"

definition cellAt :: "grid \<Rightarrow> nat \<times> nat \<Rightarrow> int" where
  "cellAt g p = g ! fst p ! snd p"

definition sameUnit :: "nat \<times> nat \<Rightarrow> nat \<times> nat \<Rightarrow> bool" where
  "sameUnit p q \<longleftrightarrow>
     fst p = fst q \<or> snd p = snd q \<or> (fst p div 3 = fst q div 3 \<and> snd p div 3 = snd q div 3)"

definition hasConflict :: "grid \<Rightarrow> bool" where
  "hasConflict g \<longleftrightarrow>
     list_ex (\<lambda>p. list_ex (\<lambda>q. p \<noteq> q \<and> sameUnit p q \<and> cellAt g p \<noteq> 0 \<and> cellAt g p = cellAt g q) allCells)
       allCells"

definition isFull :: "grid \<Rightarrow> bool" where
  "isFull g \<longleftrightarrow> list_all (list_all (\<lambda>n. n \<noteq> 0)) g"

definition keepsGivens :: "grid \<Rightarrow> grid \<Rightarrow> bool" where
  "keepsGivens g s \<longleftrightarrow> list_all (\<lambda>p. cellAt g p \<noteq> 0 \<longrightarrow> cellAt s p = cellAt g p) allCells"

definition completes :: "grid \<Rightarrow> grid \<Rightarrow> bool" where
  "completes g s \<longleftrightarrow> isGrid s \<and> isFull s \<and> \<not> hasConflict s \<and> keepsGivens g s"

fun lexLe :: "int list \<Rightarrow> int list \<Rightarrow> bool" where
  "lexLe [] ys = True"
| "lexLe (x # xs) [] = False"
| "lexLe (x # xs) (y # ys) = (x < y \<or> (x = y \<and> lexLe xs ys))"

definition dense :: "board \<Rightarrow> bool" where
  "dense board \<longleftrightarrow> length board = 9 \<and> list_all (\<lambda>row. row \<noteq> RHole) board"

definition holds :: "board \<Rightarrow> rat \<Rightarrow> nat \<times> nat \<Rightarrow> bool" where
  "holds board v p \<longleftrightarrow> getCell board (fst p) (snd p) = Inr (JNum v)"

definition is9x9 :: "board \<Rightarrow> bool" where
  "is9x9 board \<longleftrightarrow> length board = 9 \<and> list_all (\<lambda>row. isArray9 board row) [0..<9]"

subsection \<open>Example grids\<close>

definition fullGrid :: grid where
  "fullGrid =
    [[5,3,4,6,7,8,9,1,2],
     [6,7,2,1,9,5,3,4,8],
     [1,9,8,3,4,2,5,6,7],
     [8,5,9,7,6,1,4,2,3],
     [4,2,6,8,5,3,7,9,1],
     [7,1,3,9,2,4,8,5,6],
     [9,6,1,5,3,7,2,8,4],
     [2,8,7,4,1,9,6,3,5],
     [3,4,5,2,8,6,1,7,9]]"

definition oneBlank :: grid where
  "oneBlank = fullGrid[0 := [0,3,4,6,7,8,9,1,2]]"

definition twoFives :: grid where
  "twoFives = fullGrid[0 := [5,5,4,6,7,8,9,1,2]]"

definition passes :: "board \<Rightarrow> nat \<times> nat \<Rightarrow> bool" where
  "passes board p \<longleftrightarrow>
     isArray9 board (fst p) \<and>
     (case getCell board (fst p) (snd p) of
        Inr (JNum q) \<Rightarrow>
          0 \<le> q \<and> q \<le> 9 \<and>
          (q = 0 \<or> list_all (\<lambda>p'. p' = p \<or> \<not> holds board q p')
                     (lineCells (fst p) (snd p) @ boxCells (fst p) (snd p)))
      | _ \<Rightarrow> False)"

definition verdict :: "board \<Rightarrow> nat \<times> nat \<Rightarrow> result" where
  "verdict board p =
     (if \<not> isArray9 board (fst p) then rowError (fst p)
      else (case getCell board (fst p) (snd p) of
              Inr (JNum q) \<Rightarrow> if q < 0 \<or> q > 9 then rangeError else conflictError
            | _ \<Rightarrow> rangeError))"

definition firstFailure :: "board \<Rightarrow> (nat \<times> nat) option" where
  "firstFailure board = find (\<lambda>p. \<not> passes board p) allCells"

definition cellInRange :: "board \<Rightarrow> nat \<times> nat \<Rightarrow> bool" where
  "cellInRange board p \<longleftrightarrow>
     (case getCell board (fst p) (snd p) of Inr (JNum q) \<Rightarrow> 0 \<le> q \<and> q \<le> 9 | _ \<Rightarrow> False)"

definition searchResult :: "board \<Rightarrow> exn + result" where
  "searchResult board =
     (case solveBoard board of
        Inl e \<Rightarrow> Inl e
      | Inr (solved, b') \<Rightarrow> if \<not> solved then Inr unsolvableError else Inr (success b'))"

definition lateShortRow :: "jsval list list" where
  "lateShortRow =
     [map JNum [0,0,0,0,0,0,0,0,0],
      map JNum [0,0,0,10,0,0,0,0,0],
      map JNum [0,0,0,0,0,0,0,0,0],
      map JNum [0,0,0,0,0,0,0,0,0],
      map JNum [0,0,0,0,0,0,0,0,0],
      map JNum [0,0,0,0,0,0,0,0],
      map JNum [0,0,0,0,0,0,0,0,0],
      map JNum [0,0,0,0,0,0,0,0,0],
      map JNum [0,0,0,0,0,0,0,0,0]]"

definition firstRowBad :: "jsval list list" where
  "firstRowBad = lateShortRow[0 := map JNum [0,0,0,0,0,0,0,-1,0]]"

definition halfValue :: "jsval list list" where
  "halfValue = (map (map (\<lambda>n. JNum (of_int n))) fullGrid)[0 := map JNum [5/2,3,4,6,7,8,9,1,2]]"

definition conflictFirst :: "jsval list list" where
  "conflictFirst = (map (map (\<lambda>n. JNum (of_int n))) fullGrid)[0 := map JNum [5,5,10,6,7,8,9,1,2]]"

definition tenValue :: "jsval list list" where
  "tenValue = (map (map (\<lambda>n. JNum (of_int n))) fullGrid)[0 := map JNum [10,3,4,6,7,8,9,1,2]]"

definition setG :: "grid \<Rightarrow> nat \<Rightarrow> nat \<Rightarrow> int \<Rightarrow> grid" where
  "setG g r c v = g[r := (g ! r)[c := v]]"

definition firstEmpty :: "grid \<Rightarrow> (nat \<times> nat) option" where
  "firstEmpty g = find (\<lambda>p. cellAt g p = 0) allCells"

definition fits :: "grid \<Rightarrow> nat \<times> nat \<Rightarrow> int \<Rightarrow> bool" where
  "fits g p v \<longleftrightarrow> list_all (\<lambda>q. sameUnit p q \<longrightarrow> cellAt g q \<noteq> v) allCells"

definition leastIn :: "(grid \<Rightarrow> bool) \<Rightarrow> grid \<Rightarrow> exn + bool \<times> board \<Rightarrow> bool" where
  "leastIn C g res \<longleftrightarrow>
     (if \<exists>s. C s
      then \<exists>s. res = Inr (True, boardOf s) \<and> C s \<and> (\<forall>s'. C s' \<longrightarrow> lexLe (concat s) (concat s'))
      else res = Inr (False, boardOf g))"

definition solveSpec :: "grid \<Rightarrow> exn + bool \<times> board \<Rightarrow> bool" where
  "solveSpec g res \<longleftrightarrow> leastIn (completes g) g res"

definition trySpec :: "grid \<Rightarrow> nat \<times> nat \<Rightarrow> nat \<Rightarrow> exn + bool \<times> board \<Rightarrow> bool" where
  "trySpec g p v res \<longleftrightarrow> leastIn (\<lambda>s. completes g s \<and> int v \<le> cellAt s p) g res"

definition blocked :: grid where
  "blocked =
    [[0,3,4,6,7,8,9,1,2],
     [6,5,2,1,9,0,3,4,8],
     [1,9,8,3,4,2,5,6,7],
     [8,0,9,7,6,1,4,2,3],
     [4,2,6,8,5,3,7,9,1],
     [7,1,3,9,2,4,8,5,6],
     [9,6,1,5,3,7,2,8,4],
     [2,8,7,4,1,9,6,3,5],
     [3,4,5,2,8,6,1,7,9]]"

section \<open>The same program on an explicit store\<close>

type_synonym addr = nat

datatype hval =
    HNum rat
  | HNotFinite
  | HStr string
  | HBool bool
  | HNull
  | HUndefined
  | HHole
  | HRef addr

type_synonym heap = "hval list list"

record hresult =
  hsolution :: "addr option"
  herror :: "string option"

datatype status = SThrow exn | SReturn result | SNext

datatype outcome = OutOfFuel | Thrown exn | Done bool

definition elemH :: "heap \<Rightarrow> addr \<Rightarrow> nat \<Rightarrow> hval" where
  "elemH h a i =
     (if a < length h \<and> i < length (h ! a) \<and> h ! a ! i \<noteq> HHole then h ! a ! i else HUndefined)"

definition getCellH :: "heap \<Rightarrow> addr \<Rightarrow> nat \<Rightarrow> nat \<Rightarrow> exn + hval" where
  "getCellH h board r c =
     (case elemH h board r of
        HRef a \<Rightarrow> Inr (elemH h a c)
      | HStr s \<Rightarrow> Inr (if c < length s then HStr [s ! c] else HUndefined)
      | HUndefined \<Rightarrow> Inl TypeError
      | HNull \<Rightarrow> Inl TypeError
      | _ \<Rightarrow> Inr HUndefined)"

definition setCellH :: "heap \<Rightarrow> addr \<Rightarrow> nat \<Rightarrow> nat \<Rightarrow> hval \<Rightarrow> exn + heap" where
  "setCellH h board r c v =
     (case elemH h board r of
        HRef a \<Rightarrow>
          if a < length h
          then Inr (h[a := (if c < length (h ! a) then (h ! a)[c := v]
                            else h ! a @ replicate (c - length (h ! a)) HHole @ [v])])
          else Inl TypeError
      | _ \<Rightarrow> Inl TypeError)"

fun findCellH :: "heap \<Rightarrow> addr \<Rightarrow> rat \<Rightarrow> (nat \<times> nat) list \<Rightarrow> exn + (nat \<times> nat) option" where
  "findCellH h board v [] = Inr None"
| "findCellH h board v ((r, c) # rest) =
     (case getCellH h board r c of
        Inl e \<Rightarrow> Inl e
      | Inr x \<Rightarrow> if x = HNum v then Inr (Some (r, c)) else findCellH h board v rest)"

definition isValidH :: "heap \<Rightarrow> addr \<Rightarrow> nat \<Rightarrow> nat \<Rightarrow> rat \<Rightarrow> exn + bool" where
  "isValidH h board row col v =
     (case findCellH h board v (lineCells row col @ boxCells row col) of
        Inl e \<Rightarrow> Inl e
      | Inr None \<Rightarrow> Inr True
      | Inr (Some _) \<Rightarrow> Inr False)"

function solveBoardH :: "nat \<Rightarrow> heap \<Rightarrow> addr \<Rightarrow> outcome \<times> heap"
  and tryValuesH :: "nat \<Rightarrow> heap \<Rightarrow> addr \<Rightarrow> nat \<Rightarrow> nat \<Rightarrow> nat \<Rightarrow> outcome \<times> heap" where
  "solveBoardH 0 h board = (OutOfFuel, h)"
| "solveBoardH (Suc fuel) h board =
     (case findCellH h board 0 allCells of
        Inl e \<Rightarrow> (Thrown e, h)
      | Inr None \<Rightarrow> (Done True, h)
      | Inr (Some (row, col)) \<Rightarrow> tryValuesH fuel h board row col 1)"
| "tryValuesH fuel h board row col v =
     (if v \<le> 9 then
        (case isValidH h board row col (of_nat v) of
           Inl e \<Rightarrow> (Thrown e, h)
         | Inr ok \<Rightarrow>
             if ok then
               (case setCellH h board row col (HNum (of_nat v)) of
                  Inl e \<Rightarrow> (Thrown e, h)
                | Inr h1 \<Rightarrow>
                    (case solveBoardH fuel h1 board of
                       (r, h2) \<Rightarrow>
                         if r = Done False then
                           (case setCellH h2 board row col (HNum 0) of
                              Inl e \<Rightarrow> (Thrown e, h2)
                            | Inr h3 \<Rightarrow> tryValuesH fuel h3 board row col (v + 1))
                         else (r, h2)))
             else tryValuesH fuel h board row col (v + 1))
      else (Done False, h))"
  by pat_completeness auto
termination
  by (relation "inv_image (less_than <*lex*> less_than)
      (\<lambda>x. case x of
          Inl (fuel, h, board) \<Rightarrow> (fuel, 0)
        | Inr (fuel, h, board, row, col, v) \<Rightarrow> (fuel, 11 - v))") auto

definition checkCellH :: "heap \<Rightarrow> addr \<Rightarrow> nat \<Rightarrow> nat \<Rightarrow> status \<times> heap" where
  "checkCellH h board row col =
     (case getCellH h board row col of
        Inl e \<Rightarrow> (SThrow e, h)
      | Inr v \<Rightarrow>
          (case v of
             HNum q \<Rightarrow>
               if q < 0 \<or> q > 9 then (SReturn rangeError, h)
               else if q \<noteq> 0 then
                 (case setCellH h board row col (HNum 0) of
                    Inl e \<Rightarrow> (SThrow e, h)
                  | Inr h1 \<Rightarrow>
                      (case isValidH h1 board row col q of
                         Inl e \<Rightarrow> (SThrow e, h1)
                       | Inr ok \<Rightarrow>
                           if \<not> ok then (SReturn conflictError, h1)
                           else (case setCellH h1 board row col v of
                                   Inl e \<Rightarrow> (SThrow e, h1)
                                 | Inr h2 \<Rightarrow> (SNext, h2))))
               else (SNext, h)
           | _ \<Rightarrow> (SReturn rangeError, h)))"

fun checkColsH :: "heap \<Rightarrow> addr \<Rightarrow> nat \<Rightarrow> nat list \<Rightarrow> status \<times> heap" where
  "checkColsH h board row [] = (SNext, h)"
| "checkColsH h board row (col # cols) =
     (case checkCellH h board row col of
        (SNext, h1) \<Rightarrow> checkColsH h1 board row cols
      | (s, h1) \<Rightarrow> (s, h1))"

definition isArray9H :: "heap \<Rightarrow> addr \<Rightarrow> nat \<Rightarrow> bool" where
  "isArray9H h board row \<longleftrightarrow>
     (case elemH h board row of HRef a \<Rightarrow> a < length h \<and> length (h ! a) = 9 | _ \<Rightarrow> False)"

fun checkRowsH :: "heap \<Rightarrow> addr \<Rightarrow> nat list \<Rightarrow> status \<times> heap" where
  "checkRowsH h board [] = (SNext, h)"
| "checkRowsH h board (row # rows) =
     (if \<not> isArray9H h board row then (SReturn (rowError row), h)
      else (case checkColsH h board row [0..<9] of
              (SNext, h1) \<Rightarrow> checkRowsH h1 board rows
            | (s, h1) \<Rightarrow> (s, h1)))"

fun mapSliceH :: "heap \<Rightarrow> hval list \<Rightarrow> (exn + hval list) \<times> heap" where
  "mapSliceH h [] = (Inr [], h)"
| "mapSliceH h (x # xs) =
     (case x of
        HHole \<Rightarrow>
          (case mapSliceH h xs of
             (Inl e, h') \<Rightarrow> (Inl e, h')
           | (Inr ys, h') \<Rightarrow> (Inr (HHole # ys), h'))
      | HRef a \<Rightarrow>
          if a < length h then
            (case mapSliceH (h @ [h ! a]) xs of
               (Inl e, h') \<Rightarrow> (Inl e, h')
             | (Inr ys, h') \<Rightarrow> (Inr (HRef (length h) # ys), h'))
          else (Inl TypeError, h)
      | HStr s \<Rightarrow>
          (case mapSliceH h xs of
             (Inl e, h') \<Rightarrow> (Inl e, h')
           | (Inr ys, h') \<Rightarrow> (Inr (HStr s # ys), h'))
      | _ \<Rightarrow> (Inl TypeError, h))"

definition hfailure :: "result \<Rightarrow> hresult" where
  "hfailure r = \<lparr>hsolution = None, herror = error r\<rparr>"

definition solveSudokuH :: "nat \<Rightarrow> heap \<Rightarrow> hval \<Rightarrow> (exn + hresult) option \<times> heap" where
  "solveSudokuH fuel h rows =
     (case rows of
        HRef a \<Rightarrow>
          if \<not> a < length h \<or> length (h ! a) \<noteq> 9 then (Some (Inr (hfailure rowsError)), h)
          else (case mapSliceH h (h ! a) of
                  (Inl e, h1) \<Rightarrow> (Some (Inl e), h1)
                | (Inr copies, h1) \<Rightarrow>
                    (let board = length h1; h2 = h1 @ [copies] in
                     case checkRowsH h2 board [0..<9] of
                       (SThrow e, h3) \<Rightarrow> (Some (Inl e), h3)
                     | (SReturn r, h3) \<Rightarrow> (Some (Inr (hfailure r)), h3)
                     | (SNext, h3) \<Rightarrow>
                         (case solveBoardH fuel h3 board of
                            (OutOfFuel, h4) \<Rightarrow> (None, h4)
                          | (Thrown e, h4) \<Rightarrow> (Some (Inl e), h4)
                          | (Done solved, h4) \<Rightarrow>
                              if \<not> solved then (Some (Inr (hfailure unsolvableError)), h4)
                              else (Some (Inr \<lparr>hsolution = Some board, herror = None\<rparr>), h4))))
      | _ \<Rightarrow> (Some (Inr (hfailure rowsError)), h))"

definition heapOfGrid :: "grid \<Rightarrow> heap" where
  "heapOfGrid g = map (map (\<lambda>n. HNum (of_int n))) g @ [map HRef [0..<length g]]"

definition owned :: "nat \<Rightarrow> heap \<Rightarrow> addr \<Rightarrow> bool" where
  "owned n0 h board \<longleftrightarrow>
     n0 \<le> board \<and> board < length h \<and>
     (\<forall>x\<in>set (h ! board). \<forall>a. x = HRef a \<longrightarrow> n0 \<le> a \<and> a \<noteq> board)"

definition step :: "nat \<Rightarrow> addr \<Rightarrow> heap \<Rightarrow> heap \<Rightarrow> bool" where
  "step n0 board h h' \<longleftrightarrow>
     take n0 h' = take n0 h \<and> h' ! board = h ! board \<and> length h' = length h"

fun sliceable :: "jsval \<Rightarrow> bool" where
  "sliceable (JArr xs) = True"
| "sliceable (JStr s) = True"
| "sliceable x = False"

fun copyRow :: "jsval \<Rightarrow> brow" where
  "copyRow (JArr xs) = RArr xs"
| "copyRow (JStr s) = RStr s"
| "copyRow x = RHole"

subsection \<open>From the store to the value model\<close>

fun prim :: "hval \<Rightarrow> jsval" where
  "prim (HNum q) = JNum q"
| "prim HNotFinite = JNotFinite"
| "prim (HStr s) = JStr s"
| "prim (HBool b) = JBool b"
| "prim HNull = JNull"
| "prim HUndefined = JUndefined"
| "prim HHole = JHole"
| "prim (HRef a) = JArr []"

fun rowAt :: "heap \<Rightarrow> hval \<Rightarrow> brow" where
  "rowAt h (HRef a) = RArr (map prim (h ! a))"
| "rowAt h (HStr s) = RStr s"
| "rowAt h x = RHole"

definition boardAt :: "heap \<Rightarrow> addr \<Rightarrow> board" where
  "boardAt h board = map (rowAt h) (h ! board)"

fun wfRow :: "heap \<Rightarrow> addr \<Rightarrow> nat \<Rightarrow> hval \<Rightarrow> bool" where
  "wfRow h board i (HRef a) \<longleftrightarrow>
     a < length h \<and> a \<noteq> board \<and> (\<forall>j<length (h ! board). h ! board ! j = HRef a \<longrightarrow> j = i)"
| "wfRow h board i (HStr s) \<longleftrightarrow> True"
| "wfRow h board i HHole \<longleftrightarrow> True"
| "wfRow h board i x \<longleftrightarrow> False"

definition wfBoard :: "heap \<Rightarrow> addr \<Rightarrow> bool" where
  "wfBoard h board \<longleftrightarrow>
     board < length h \<and> (\<forall>i<length (h ! board). wfRow h board i (h ! board ! i))"

definition sameFlow :: "addr \<Rightarrow> status \<times> heap \<Rightarrow> board flow \<Rightarrow> bool" where
  "sameFlow board sh fl \<longleftrightarrow>
     (case fst sh of
        SThrow e \<Rightarrow> fl = Throw e
      | SReturn x \<Rightarrow> fl = Return x
      | SNext \<Rightarrow> fl = Next (boardAt (snd sh) board) \<and> wfBoard (snd sh) board)"

definition simSearch :: "addr \<Rightarrow> outcome \<times> heap \<Rightarrow> exn + bool \<times> board \<Rightarrow> bool" where
  "simSearch board oh res \<longleftrightarrow>
     (case res of
        Inl e \<Rightarrow> fst oh = Thrown e
      | Inr (ok, b') \<Rightarrow> fst oh = Done ok \<and> boardAt (snd oh) board = b' \<and> wfBoard (snd oh) board)"

definition refinesS :: "board \<Rightarrow> bool" where
  "refinesS b \<longleftrightarrow>
     (\<exists>n. \<forall>h board fuel. wfBoard h board \<and> boardAt h board = b \<and> n \<le> fuel \<longrightarrow>
        simSearch board (solveBoardH fuel h board) (solveBoard b))"

definition refinesT :: "board \<Rightarrow> nat \<Rightarrow> nat \<Rightarrow> nat \<Rightarrow> bool" where
  "refinesT b row col v \<longleftrightarrow>
     (\<exists>n. \<forall>h board fuel. wfBoard h board \<and> boardAt h board = b \<and> n \<le> fuel \<longrightarrow>
        simSearch board (tryValuesH fuel h board row col v) (tryValues b row col v))"

fun fresh :: "nat \<Rightarrow> hval list \<Rightarrow> bool" where
  "fresh lo [] = True"
| "fresh lo (HRef a # ys) = (lo \<le> a \<and> fresh (Suc a) ys)"
| "fresh lo (HStr s # ys) = fresh lo ys"
| "fresh lo (HHole # ys) = fresh lo ys"
| "fresh lo (x # ys) = False"

fun absElem :: "heap \<Rightarrow> hval \<Rightarrow> jsval" where
  "absElem h (HRef a) = JArr (map prim (h ! a))"
| "absElem h x = prim x"

fun absInput :: "heap \<Rightarrow> hval \<Rightarrow> jsval" where
  "absInput h (HRef a) = JArr (map (absElem h) (h ! a))"
| "absInput h x = prim x"

fun refBelow :: "nat \<Rightarrow> hval \<Rightarrow> bool" where
  "refBelow n (HRef a) = (a < n)"
| "refBelow n x = True"

fun wfInput :: "heap \<Rightarrow> hval \<Rightarrow> bool" where
  "wfInput h (HRef a) = (a < length h \<and> list_all (refBelow (length h)) (h ! a))"
| "wfInput h x = True"

definition absOutcome :: "heap \<Rightarrow> exn + hresult \<Rightarrow> exn + result" where
  "absOutcome h r =
     map_sum id (\<lambda>x. \<lparr>solution = map_option (boardAt h) (hsolution x), error = herror x\<rparr>) r"

definition validated :: "jsval \<Rightarrow> board option" where
  "validated rows =
     (case rows of
        JArr rs \<Rightarrow>
          if length rs \<noteq> 9 then None
          else (case mapSlice rs of
                  Inl e \<Rightarrow> None
                | Inr board \<Rightarrow>
                    (case checkRows board [0..<9] of Next b \<Rightarrow> Some b | _ \<Rightarrow> None))
      | _ \<Rightarrow> None)"

section \<open>Termination of the search\<close>

fun rowZeros :: "brow \<Rightarrow> nat" where
  "rowZeros (RArr xs) = length (filter (\<lambda>x. x = JNum 0) xs)"
| "rowZeros (RStr s) = 0"
| "rowZeros RHole = 0"

definition zeros :: "board \<Rightarrow> nat" where
  "zeros board = sum_list (map rowZeros board)"

definition zerosAfterClear :: "board \<Rightarrow> nat \<Rightarrow> nat \<Rightarrow> nat" where
  "zerosAfterClear board r c =
     (case setCell board r c (JNum 0) of Inl e \<Rightarrow> 0 | Inr b \<Rightarrow> zeros b)"

lemma findCell_Some:
  "findCell board v cells = Inr (Some (r, c)) \<Longrightarrow> getCell board r c = Inr (JNum v) \<and> (r, c) \<in> set cells"
  by (induction board v cells rule: findCell.induct) (auto split: sum.splits if_splits)

lemma rowSet_id: "rowGet row c = Inr (JNum v) \<Longrightarrow> rowSet row c (JNum v) = Inr row"
  by (cases row) (auto split: if_splits simp: list_update_same_conv)

lemma setCell_id: "getCell board r c = Inr (JNum v) \<Longrightarrow> setCell board r c (JNum v) = Inr board"
  by (auto simp: getCell_def setCell_def rowSet_id split: if_splits)

lemma rowSet_rowSet: "rowSet row c x = Inr row1 \<Longrightarrow> rowSet row1 c y = rowSet row c y"
  by (cases row) (auto simp: nth_append list_update_append)

lemma setCell_setCell: "setCell board r c x = Inr b1 \<Longrightarrow> setCell b1 r c y = setCell board r c y"
  by (auto simp: setCell_def rowSet_rowSet split: if_splits sum.splits)

lemma filter_update_count:
  "c < length xs \<Longrightarrow> P a \<Longrightarrow> \<not> P a' \<Longrightarrow>
   length (filter P (xs[c := a])) = Suc (length (filter P (xs[c := a'])))"
  by (induction xs arbitrary: c) (auto split: nat.splits)

lemma rowSet_zeros:
  "rowSet row c (JNum v) = Inr row1 \<Longrightarrow> v \<noteq> 0 \<Longrightarrow>
   \<exists>row0. rowSet row c (JNum 0) = Inr row0 \<and> rowZeros row0 = Suc (rowZeros row1)"
  by (cases row) (auto simp: filter_update_count [where P = "\<lambda>x. x = JNum 0"])

lemma zeros_update:
  "r < length board \<Longrightarrow> zeros (board[r := row]) + rowZeros (board ! r) = zeros board + rowZeros row"
  unfolding zeros_def
  by (induction board arbitrary: r) (auto split: nat.splits)

lemma setCell_zeros:
  assumes "setCell board r c (JNum v) = Inr b1" and "v \<noteq> 0"
  shows "\<exists>b0. setCell board r c (JNum 0) = Inr b0 \<and> zeros b0 = Suc (zeros b1)"
proof -
  from assms(1) obtain row1 where r: "r < length board"
    and row1: "rowSet (board ! r) c (JNum v) = Inr row1" and b1: "b1 = board[r := row1]"
    by (auto simp: setCell_def split: if_splits sum.splits)
  from rowSet_zeros [OF row1 assms(2)] obtain row0
    where row0: "rowSet (board ! r) c (JNum 0) = Inr row0" "rowZeros row0 = Suc (rowZeros row1)"
    by blast
  have "zeros (board[r := row0]) + rowZeros (board ! r) = zeros board + rowZeros row0"
    and "zeros (board[r := row1]) + rowZeros (board ! r) = zeros board + rowZeros row1"
    using r by (rule zeros_update)+
  with row0 have "zeros (board[r := row0]) = Suc (zeros (board[r := row1]))"
    by simp
  with r row0 b1 show ?thesis
    by (simp add: setCell_def)
qed

lemma solveBoard_restores:
  "solveBoard_tryValues_dom (Inl board) \<Longrightarrow>
     solveBoard board = Inr (False, b') \<longrightarrow> b' = board"
  "solveBoard_tryValues_dom (Inr (board, row, col, v)) \<Longrightarrow>
     tryValues board row col v = Inr (False, b') \<longrightarrow>
       b' = board \<or> setCell board row col (JNum 0) = Inr b'"
proof (induction board and board row col v arbitrary: b' and b' rule: solveBoard_tryValues.pinduct)
  case (1 board)
  show ?case
  proof
    assume res: "solveBoard board = Inr (False, b')"
    then obtain row col where f: "findCell board 0 allCells = Inr (Some (row, col))"
      and t: "tryValues board row col 1 = Inr (False, b')"
      using "1.hyps" by (auto simp: solveBoard.psimps split: sum.splits option.splits)
    from findCell_Some [OF f] have "setCell board row col (JNum 0) = Inr board"
      by (simp add: setCell_id)
    with "1.IH" [OF f refl refl, of b'] t show "b' = board"
      by auto
  qed
next
  case (2 board row col v)
  show ?case
  proof
    assume res: "tryValues board row col v = Inr (False, b')"
    show "b' = board \<or> setCell board row col (JNum 0) = Inr b'"
    proof (cases "v \<le> 9")
      case False
      with res "2.hyps" show ?thesis by (simp add: tryValues.psimps)
    next
      case v: True
      then obtain ok where ok: "isValid board row col (of_nat v) = Inr ok"
        using res "2.hyps" by (auto simp: tryValues.psimps split: sum.splits)
      show ?thesis
      proof (cases ok)
        case False
        with res v ok "2.hyps" have "tryValues board row col (v + 1) = Inr (False, b')"
          by (simp add: tryValues.psimps)
        with "2.IH"(3) [OF v ok False] show ?thesis by blast
      next
        case True
        from res v ok True "2.hyps" obtain b1 b2 b3
          where b1: "setCell board row col (JNum (of_nat v)) = Inr b1"
            and s: "solveBoard b1 = Inr (False, b2)"
            and b3: "setCell b2 row col (JNum 0) = Inr b3"
            and t: "tryValues b3 row col (v + 1) = Inr (False, b')"
          by (auto simp: tryValues.psimps split: sum.splits if_splits)
        from "2.IH"(1) [OF v ok True b1] s have "b2 = b1" by blast
        with b3 setCell_setCell [OF b1] have c: "setCell board row col (JNum 0) = Inr b3"
          by simp
        from "2.IH"(2) [OF v ok True b1 s refl _ b3] t
        have "b' = b3 \<or> setCell b3 row col (JNum 0) = Inr b'" by simp
        moreover from setCell_setCell [OF c] c have "setCell b3 row col (JNum 0) = Inr b3"
          by simp
        ultimately show ?thesis using c by auto
      qed
    qed
  qed
qed


termination solveBoard
proof (relation "inv_image (less_than <*lex*> less_than)
    (\<lambda>x. case x of
        Inl board \<Rightarrow> (zeros board, 20)
      | Inr (board, row, col, v) \<Rightarrow> (zerosAfterClear board row col, if v = 0 then 30 else 12 - v))",
    goal_cases)
  case 1
  show ?case by (intro wf_inv_image wf_lex_prod wf_less_than)
next
  case (2 board b x2 x y)
  then have "findCell board 0 allCells = Inr (Some (x, y))" by simp
  from findCell_Some [OF this] have "setCell board x y (JNum 0) = Inr board"
    by (simp add: setCell_id)
  then show ?case by (simp add: zerosAfterClear_def)
next
  case (3 board row col v b ba)
  show ?case
  proof (cases "v = 0")
    case True
    with 3 show ?thesis by (simp add: zerosAfterClear_def)
  next
    case False
    then have "(of_nat v :: rat) \<noteq> 0" by simp
    from 3 have "setCell board row col (JNum (of_nat v)) = Inr ba" by simp
    from setCell_zeros [OF this \<open>of_nat v \<noteq> 0\<close>] show ?thesis
      by (auto simp: zerosAfterClear_def)
  qed
next
  case (4 board row col v b ba bb x y bc)
  then have b1: "setCell board row col (JNum (of_nat v)) = Inr ba"
    and s: "solveBoard ba = Inr (False, y)" and d: "solveBoard_tryValues_dom (Inl ba)"
    and b3: "setCell y row col (JNum 0) = Inr bc" and v: "v \<le> 9"
    by auto
  from solveBoard_restores(1) [OF d, of y] s have "y = ba" by simp
  with b3 setCell_setCell [OF b1] have c: "setCell board row col (JNum 0) = Inr bc"
    by simp
  with setCell_setCell [OF c] have "zerosAfterClear bc row col = zerosAfterClear board row col"
    by (simp add: zerosAfterClear_def)
  with v show ?case by auto
next
  case (5 board row col v b)
  then show ?case by auto
qed

declare solveBoard.simps [simp del] tryValues.simps [simp del]

section \<open>Inputs that throw\<close>

text \<open>
  C5 (does not hold of the code). The claim: for every input value whatsoever, \<open>solveSudoku\<close>
  returns an ordinary result value and never throws. At the array of nine \<open>null\<close>s the
  9-row check passes, and \<open>rows.map((row) => row.slice())\<close> then reads \<open>slice\<close> of
  \<open>null\<close>: a TypeError is thrown before the guard \<open>!Array.isArray(board[row])\<close>, which
  was meant to turn a row that is not an array into the "Row n must have 9 values." result,
  is reached.
\<close>
theorem solveSudoku_null_rows_throw:
  "solveSudoku (JArr [JNull, JNull, JNull, JNull, JNull, JNull, JNull, JNull, JNull]) = Inl TypeError"
  by (simp add: solveSudoku_def)

section \<open>Reading the board\<close>

lemma rowGet_total: "row \<noteq> RHole \<Longrightarrow> \<exists>x. rowGet row c = Inr x"
  by (cases row) auto

lemma getCell_dense: "dense board \<Longrightarrow> r < 9 \<Longrightarrow> \<exists>x. getCell board r c = Inr x"
  by (auto simp: dense_def getCell_def list_all_length intro: rowGet_total)

lemma findCell_find:
  "dense board \<Longrightarrow> \<forall>p\<in>set cells. fst p < 9 \<Longrightarrow>
   findCell board v cells = Inr (find (holds board v) cells)"
proof (induction board v cells rule: findCell.induct)
  case (1 board v)
  show ?case by simp
next
  case (2 board v r c rest)
  from getCell_dense [of board r c] 2(2,3) obtain x where x: "getCell board r c = Inr x"
    by auto
  with 2 show ?case by (auto simp: holds_def)
qed

lemma div3_lt9: "(a::nat) div 3 = r div 3 \<Longrightarrow> r < 9 \<Longrightarrow> a < 9"
  by presburger

lemma set_lineCells: "set (lineCells r c) = {(r, i) | i. i < 9} \<union> {(i, c) | i. i < 9}"
  by (auto simp: lineCells_def)

lemma set_boxCells:
  "set (boxCells r c) = {(r', c'). r' div 3 = r div 3 \<and> c' div 3 = c div 3}"
  by (auto simp: boxCells_def Let_def)

lemma set_allCells: "set allCells = {(r, c). r < 9 \<and> c < 9}"
  by (auto simp: allCells_def)

lemma unitCells_range:
  "r < 9 \<Longrightarrow> c < 9 \<Longrightarrow> p \<in> set (lineCells r c @ boxCells r c) \<Longrightarrow> fst p < 9 \<and> snd p < 9"
  by (auto simp: set_lineCells set_boxCells dest: div3_lt9)

lemma set_unitCells:
  "r < 9 \<Longrightarrow> c < 9 \<Longrightarrow>
   set (lineCells r c @ boxCells r c) = {q \<in> set allCells. sameUnit (r, c) q}"
  by (auto simp: set_lineCells set_boxCells set_allCells sameUnit_def dest: div3_lt9)

lemma isValid_dense:
  assumes "dense board" "r < 9" "c < 9"
  shows "isValid board r c v = Inr (\<forall>p\<in>set (lineCells r c @ boxCells r c). \<not> holds board v p)"
proof -
  have "\<forall>p\<in>set (lineCells r c @ boxCells r c). fst p < 9"
    using unitCells_range [OF assms(2,3)] by blast
  from findCell_find [OF assms(1) this]
  have f: "findCell board v (lineCells r c @ boxCells r c) =
    Inr (find (holds board v) (lineCells r c @ boxCells r c))" .
  have n: "find (holds board v) (lineCells r c @ boxCells r c) = None \<longleftrightarrow>
    (\<forall>p\<in>set (lineCells r c @ boxCells r c). \<not> holds board v p)"
    by (auto simp: find_None_iff)
  show ?thesis
  proof (cases "find (holds board v) (lineCells r c @ boxCells r c)")
    case None
    with n f show ?thesis by (simp add: isValid_def)
  next
    case (Some q)
    with n f show ?thesis by (simp add: isValid_def)
  qed
qed

lemma is9x9_dense: "is9x9 board \<Longrightarrow> dense board"
  unfolding is9x9_def dense_def list_all_length
proof (intro conjI allI impI)
  fix n assume a: "length board = 9 \<and> (\<forall>n<length [0..<9]. isArray9 board ([0..<9] ! n))" and n: "n < length board"
  then have "isArray9 board ([0..<9] ! n)" by simp
  with a n have "isArray9 board n" by simp
  then show "board ! n \<noteq> RHole" by (auto simp: isArray9_def)
qed simp

lemma ball_unitCells:
  assumes "row < 9" and "col < 9"
  shows "(\<forall>p\<in>set (lineCells row col @ boxCells row col). Q (fst p) (snd p)) \<longleftrightarrow>
    ((\<forall>i<9. Q row i) \<and> (\<forall>i<9. Q i col) \<and>
     (\<forall>r<9. \<forall>c<9. r div 3 = row div 3 \<and> c div 3 = col div 3 \<longrightarrow> Q r c))"
proof -
  have 1: "(\<forall>p\<in>{(row, i) | i. i < 9}. Q (fst p) (snd p)) \<longleftrightarrow> (\<forall>i<9. Q row i)"
    by fastforce
  have 2: "(\<forall>p\<in>{(i, col) | i. i < 9}. Q (fst p) (snd p)) \<longleftrightarrow> (\<forall>i<9. Q i col)"
    by fastforce
  have 3: "(\<forall>p\<in>{(r', c'). r' div 3 = row div 3 \<and> c' div 3 = col div 3}. Q (fst p) (snd p)) \<longleftrightarrow>
    (\<forall>r<9. \<forall>c<9. r div 3 = row div 3 \<and> c div 3 = col div 3 \<longrightarrow> Q r c)"
  proof (intro iffI allI impI ballI)
    fix r c
    assume "\<forall>p\<in>{(r', c'). r' div 3 = row div 3 \<and> c' div 3 = col div 3}. Q (fst p) (snd p)"
      and "r div 3 = row div 3 \<and> c div 3 = col div 3"
    then show "Q r c" by auto
  next
    fix p
    assume a: "\<forall>r<9. \<forall>c<9. r div 3 = row div 3 \<and> c div 3 = col div 3 \<longrightarrow> Q r c"
      and p: "p \<in> {(r', c'). r' div 3 = row div 3 \<and> c' div 3 = col div 3}"
    from p have d: "fst p div 3 = row div 3" "snd p div 3 = col div 3" by auto
    with assms have "fst p < 9" "snd p < 9" by (auto dest: div3_lt9)
    with a d show "Q (fst p) (snd p)" by blast
  qed
  show ?thesis
    unfolding set_append set_lineCells set_boxCells ball_Un 1 2 3 by blast
qed

text \<open>
  C8. On a 9\<times>9 board, for a row and a column index in 0..8, a digit \<open>d\<close> in 1..9 and the
  cell at that position empty, \<open>isValid\<close> returns true exactly when no cell of the row, no
  cell of the column and no cell of the 3\<times>3 box of the position holds \<open>d\<close>. The function
  only reads the board: its model returns the boolean alone, there being no assignment in its
  body whose effect would have to be returned.
\<close>
theorem isValid_iff:
  assumes "is9x9 board" and "row < 9" and "col < 9" and "1 \<le> d" and "d \<le> 9"
    and "getCell board row col = Inr (JNum 0)"
  shows "isValid board row col (of_nat d) =
    Inr ((\<forall>i<9. getCell board row i \<noteq> Inr (JNum (of_nat d))) \<and>
         (\<forall>i<9. getCell board i col \<noteq> Inr (JNum (of_nat d))) \<and>
         (\<forall>r<9. \<forall>c<9. r div 3 = row div 3 \<and> c div 3 = col div 3 \<longrightarrow>
            getCell board r c \<noteq> Inr (JNum (of_nat d))))"
  using isValid_dense [OF is9x9_dense [OF assms(1)] assms(2,3), of "of_nat d"]
    ball_unitCells [OF assms(2,3), of "\<lambda>r c. getCell board r c \<noteq> Inr (JNum (of_nat d))"]
  by (simp add: holds_def)

theorem isValid_iff_witness:
  "is9x9 (boardOf oneBlank) \<and> getCell (boardOf oneBlank) 0 0 = Inr (JNum 0) \<and>
   isValid (boardOf oneBlank) 0 0 (of_nat 5) =
    Inr ((\<forall>i<9. getCell (boardOf oneBlank) 0 i \<noteq> Inr (JNum (of_nat 5))) \<and>
         (\<forall>i<9. getCell (boardOf oneBlank) i 0 \<noteq> Inr (JNum (of_nat 5))) \<and>
         (\<forall>r<9. \<forall>c<9. r div 3 = 0 div 3 \<and> c div 3 = 0 div 3 \<longrightarrow>
            getCell (boardOf oneBlank) r c \<noteq> Inr (JNum (of_nat 5))))"
proof -
  have h1: "is9x9 (boardOf oneBlank)" by code_simp
  have h6: "getCell (boardOf oneBlank) 0 0 = Inr (JNum 0)" by code_simp
  from isValid_iff [of "boardOf oneBlank" 0 0 5] h1 h6 show ?thesis by simp
qed

section \<open>The validation pass stops at the first failing cell\<close>

lemma setCell_array:
  assumes "isArray9 board r" and "c < 9"
  shows "\<exists>b1. setCell board r c (JNum v) = Inr b1 \<and>
    (\<forall>r'. isArray9 b1 r' = isArray9 board r') \<and> (dense board \<longrightarrow> dense b1) \<and>
    (\<forall>r' c'. getCell b1 r' c' = (if r' = r \<and> c' = c then Inr (JNum v) else getCell board r' c'))"
proof -
  from assms(1) obtain xs where r: "r < length board" and xs: "board ! r = RArr xs" "length xs = 9"
    by (auto simp: isArray9_def split: brow.splits)
  let ?b1 = "board[r := RArr (xs[c := JNum v])]"
  have 1: "setCell board r c (JNum v) = Inr ?b1"
    using r xs assms(2) by (simp add: setCell_def)
  have 2: "isArray9 ?b1 r' = isArray9 board r'" for r'
    using r xs by (cases "r' = r") (simp_all add: isArray9_def)
  have 3: "dense ?b1" if "dense board"
    using that set_update_subset_insert [of board r "RArr (xs[c := JNum v])"]
    by (auto simp: dense_def list_all_iff)
  have 4: "getCell ?b1 r' c' = (if r' = r \<and> c' = c then Inr (JNum v) else getCell board r' c')"
    for r' c'
    using r xs assms(2) by (cases "r' = r") (auto simp: getCell_def nth_list_update)
  from 1 2 3 4 show ?thesis by blast
qed

lemma checkCell_passes:
  assumes d: "dense board" and a: "isArray9 board r" and r: "r < 9" and c: "c < 9"
  shows "checkCell board r c = (if passes board (r, c) then Next board else Return (verdict board (r, c)))"
proof -
  from getCell_dense [OF d r] obtain x where x: "getCell board r c = Inr x" by blast
  show ?thesis
  proof (cases "\<exists>q. x = JNum q \<and> 0 \<le> q \<and> q \<le> 9 \<and> q \<noteq> 0")
    case False
    with x a show ?thesis
      by (cases x) (auto simp: checkCell_def passes_def verdict_def)
  next
    case True
    then obtain q where q: "x = JNum q" "0 \<le> q" "q \<le> 9" "q \<noteq> 0" by blast
    from setCell_array [OF a c, of 0] obtain b1
      where b1: "setCell board r c (JNum 0) = Inr b1" and d1: "dense b1"
        and g1: "\<And>r' c'. getCell b1 r' c' = (if r' = r \<and> c' = c then Inr (JNum 0) else getCell board r' c')"
      using d by blast
    have restore: "setCell b1 r c (JNum q) = Inr board"
      using setCell_setCell [OF b1, of "JNum q"] setCell_id [of board r c q] x q by simp
    have h: "holds b1 q p \<longleftrightarrow> p \<noteq> (r, c) \<and> holds board q p" for p
      using q(4) by (cases p) (auto simp: holds_def g1)
    have v: "isValid b1 r c q =
      Inr (list_all (\<lambda>p'. p' = (r, c) \<or> \<not> holds board q p') (lineCells r c @ boxCells r c))"
      using isValid_dense [OF d1 r c, of q] by (auto simp: h list_all_iff)
    from x q a b1 v restore show ?thesis
      by (simp add: checkCell_def passes_def verdict_def)
  qed
qed

lemma checkCols_find:
  assumes "dense board" and "isArray9 board r" and "r < 9"
  shows "\<forall>c\<in>set cols. c < 9 \<Longrightarrow>
    checkCols board r cols =
      (case find (\<lambda>c. \<not> passes board (r, c)) cols of
         None \<Rightarrow> Next board
       | Some c \<Rightarrow> Return (verdict board (r, c)))"
  by (induction cols) (simp_all add: checkCell_passes [OF assms])

lemma find_append:
  "find P (xs @ ys) = (case find P xs of None \<Rightarrow> find P ys | Some x \<Rightarrow> Some x)"
  by (induction xs) auto

lemma find_map_Pair:
  "find P (map (Pair r) cs) = map_option (Pair r) (find (\<lambda>c. P (r, c)) cs)"
  by (induction cs) auto

lemma checkRows_find:
  assumes "dense board"
  shows "\<forall>r\<in>set rows. r < 9 \<Longrightarrow>
    checkRows board rows =
      (case find (\<lambda>p. \<not> passes board p) (List.product rows [0..<9]) of
         None \<Rightarrow> Next board
       | Some p \<Rightarrow> Return (verdict board p))"
proof (induction rows)
  case Nil
  show ?case by simp
next
  case (Cons r rows)
  then have r: "r < 9" by simp
  show ?case
  proof (cases "isArray9 board r")
    case False
    then have "find (\<lambda>p. \<not> passes board p) (List.product (r # rows) [0..<9]) = Some (r, 0)"
      by (simp add: passes_def upt_conv_Cons)
    with False show ?thesis by (simp add: verdict_def)
  next
    case True
    have cols: "\<forall>c\<in>set [0..<9]. c < 9" by simp
    show ?thesis
      using True Cons
      by (simp add: checkCols_find [OF assms True r cols] find_append find_map_Pair
          split: option.splits)
  qed
qed

lemma checkRows_firstFailure:
  "dense board \<Longrightarrow>
   checkRows board [0..<9] =
     (case firstFailure board of None \<Rightarrow> Next board | Some p \<Rightarrow> Return (verdict board p))"
  using checkRows_find [of board "[0..<9]"] by (simp add: firstFailure_def allCells_def)

section \<open>Results of the validation pass\<close>

lemma mapSlice_length: "mapSlice rs = Inr board \<Longrightarrow> length board = length rs"
  by (induction rs arbitrary: board) (auto split: if_splits sum.splits)

lemma mapSlice_arrays: "mapSlice (map JArr xss) = Inr (map RArr xss)"
  by (induction xss) auto

lemma solveSudoku_validated:
  assumes "mapSlice rs = Inr board" and "dense board"
  shows "solveSudoku (JArr rs) =
    (case firstFailure board of
       Some p \<Rightarrow> Inr (verdict board p)
     | None \<Rightarrow> searchResult board)"
proof -
  from assms have "length rs = 9" by (simp add: dense_def mapSlice_length)
  with assms show ?thesis
    by (simp add: solveSudoku_def checkRows_firstFailure searchResult_def
        split: option.splits sum.splits prod.splits)
qed

text \<open>
  C4 as stated fails: with an out-of-range value in the second row (or in the first) and only
  8 entries in the sixth row, the result is RangeError, not the ShapeError for row 6.
\<close>
theorem validation_order_counterexample:
  "solveSudoku (JArr (map JArr lateShortRow)) = Inr rangeError \<and>
   solveSudoku (JArr (map JArr firstRowBad)) = Inr rangeError \<and>
   rangeError \<noteq> rowError 5"
  by code_simp

lemma find_takeWhile_dropWhile:
  "find P xs = (case find P (takeWhile R xs) of
                  Some x \<Rightarrow> Some x
                | None \<Rightarrow> find P (dropWhile R xs))"
  using find_append [of P "takeWhile R xs" "dropWhile R xs"] by (simp split: option.splits)

lemma verdict_in_range:
  "isArray9 board (fst p) \<Longrightarrow> cellInRange board p \<Longrightarrow> verdict board p = conflictError"
  by (auto simp: verdict_def cellInRange_def split: sum.splits jsval.splits)

lemma verdict_out_of_range:
  "isArray9 board (fst p) \<Longrightarrow> \<not> cellInRange board p \<Longrightarrow> verdict board p = rangeError"
  by (auto simp: verdict_def cellInRange_def split: sum.splits jsval.splits)

lemma passes_in_range: "passes board p \<Longrightarrow> cellInRange board p"
  by (auto simp: passes_def cellInRange_def split: sum.splits jsval.splits)

lemma is9x9_isArray9: "is9x9 board \<Longrightarrow> p \<in> set allCells \<Longrightarrow> isArray9 board (fst p)"
  by (auto simp: is9x9_def list_all_iff set_allCells)

lemma mapSlice_sliceable: "list_all sliceable rs \<Longrightarrow> mapSlice rs = Inr (map copyRow rs)"
proof (induction rs)
  case Nil
  show ?case by simp
next
  case (Cons x rs)
  then show ?case by (cases x) simp_all
qed

lemma dense_copies: "list_all sliceable rs \<Longrightarrow> length rs = 9 \<Longrightarrow> dense (map copyRow rs)"
proof -
  assume a: "list_all sliceable rs" and l: "length rs = 9"
  have "copyRow x \<noteq> RHole" if "sliceable x" for x
    using that by (cases x) simp_all
  with a l show ?thesis by (auto simp: dense_def list_all_iff)
qed

text \<open>
  C4 (amended). The 9-row check comes first: an input that is not an array of length 9 gets
  the "Puzzle must have 9 rows." result. For an array of nine rows each of which is an array
  or a string (a row that is null, undefined, a number or a boolean makes the copy throw, see
  C5, and an empty slot is left out here), the three other checks are not three passes but are
  interleaved in one row-major pass over the cells. The pass stops at the first cell that
  fails, and the result is decided there: ShapeError naming the row if the row of that cell is
  not an array of 9 values, else RangeError if the value is not a finite number from 0 to 9,
  else ConflictError. So the length check of a row precedes only the checks on its own cells
  and on later rows, and the range check of a cell precedes only its own conflict check and
  the checks on later cells. In particular, when the first failing cell holds an out-of-range
  value in a row of 9 values, the result is RangeError whatever the lengths of the later rows.
\<close>
theorem validation_order:
  "(\<not> (\<exists>rs. rows = JArr rs \<and> length rs = 9) \<longrightarrow> solveSudoku rows = Inr rowsError) \<and>
   (\<forall>rs p. rows = JArr rs \<and> length rs = 9 \<and> list_all sliceable rs \<and>
       firstFailure (map copyRow rs) = Some p \<longrightarrow>
       solveSudoku rows =
         Inr (if \<not> isArray9 (map copyRow rs) (fst p) then rowError (fst p)
              else if \<not> cellInRange (map copyRow rs) p then rangeError
              else conflictError))"
proof (intro conjI allI impI)
  assume "\<not> (\<exists>rs. rows = JArr rs \<and> length rs = 9)"
  then show "solveSudoku rows = Inr rowsError"
    by (cases rows) (simp_all add: solveSudoku_def)
next
  fix rs p
  let ?b = "map copyRow rs"
  assume a: "rows = JArr rs \<and> length rs = 9 \<and> list_all sliceable rs \<and> firstFailure ?b = Some p"
  then have "solveSudoku rows = Inr (verdict ?b p)"
    using solveSudoku_validated [OF mapSlice_sliceable dense_copies, of rs] by simp
  moreover have "verdict ?b p =
    (if \<not> isArray9 ?b (fst p) then rowError (fst p)
     else if \<not> cellInRange ?b p then rangeError else conflictError)"
    using verdict_in_range [of ?b p] verdict_out_of_range [of ?b p]
    by (simp add: verdict_def)
  ultimately show "solveSudoku rows =
    Inr (if \<not> isArray9 ?b (fst p) then rowError (fst p)
         else if \<not> cellInRange ?b p then rangeError else conflictError)"
    by simp
qed

text \<open>
  The amended C4 at an input whose second row holds 10 and whose sixth row has 8 entries: the
  first failing cell is the one holding 10, in a row of 9 values, and the result is RangeError.
\<close>
theorem validation_order_witness:
  "length (map JArr lateShortRow) = 9 \<and> list_all sliceable (map JArr lateShortRow) \<and>
   firstFailure (map copyRow (map JArr lateShortRow)) = Some (1, 3) \<and>
   isArray9 (map copyRow (map JArr lateShortRow)) 1 \<and>
   \<not> cellInRange (map copyRow (map JArr lateShortRow)) (1, 3) \<and>
   \<not> isArray9 (map copyRow (map JArr lateShortRow)) 5 \<and>
   solveSudoku (JArr (map JArr lateShortRow)) = Inr rangeError"
proof -
  have l: "length (map JArr lateShortRow) = 9" by code_simp
  have s: "list_all sliceable (map JArr lateShortRow)" by code_simp
  have f: "firstFailure (map copyRow (map JArr lateShortRow)) = Some (1, 3)" by code_simp
  have a: "isArray9 (map copyRow (map JArr lateShortRow)) 1" by code_simp
  have c: "\<not> cellInRange (map copyRow (map JArr lateShortRow)) (1, 3)" by code_simp
  have n: "\<not> isArray9 (map copyRow (map JArr lateShortRow)) 5" by code_simp
  from validation_order [of "JArr (map JArr lateShortRow)"] l s f a c n show ?thesis
    by simp
qed

text \<open>
  C3 (amended). For every 9-row input whose rows each have 9 entries, if some cell value is not
  a finite number in the closed interval from 0 to 9, then \<open>solveSudoku\<close> returns the
  RangeError result, unless a cell that comes before the first such value in row-major order
  fails its conflict check (it holds a non-zero number that occurs again in its row, column or
  box): then the ConflictError result is returned. The range check accepts every finite number
  from 0 to 9, integral or not.
\<close>
theorem range_error_unless_earlier_conflict:
  assumes "is9x9 (map RArr xss)"
    and "list_ex (\<lambda>p. \<not> cellInRange (map RArr xss) p) allCells"
  shows "solveSudoku (JArr (map JArr xss)) =
    Inr (if list_ex (\<lambda>p. \<not> passes (map RArr xss) p) (takeWhile (cellInRange (map RArr xss)) allCells)
         then conflictError else rangeError)"
proof -
  let ?b = "map RArr xss"
  let ?R = "cellInRange ?b"
  let ?P = "\<lambda>p. \<not> passes ?b p"
  have sol: "solveSudoku (JArr (map JArr xss)) =
    (case firstFailure ?b of Some p \<Rightarrow> Inr (verdict ?b p) | None \<Rightarrow> searchResult ?b)"
    using assms(1) by (intro solveSudoku_validated mapSlice_arrays is9x9_dense)
  show ?thesis
  proof (cases "find ?P (takeWhile ?R allCells)")
    case (Some q)
    then have q: "q \<in> set (takeWhile ?R allCells)" "?P q"
      by (auto simp: find_Some_iff)
    then have "?R q" "q \<in> set allCells"
      by (auto dest: set_takeWhileD)
    with assms(1) have "verdict ?b q = conflictError"
      by (intro verdict_in_range is9x9_isArray9)
    moreover from Some have "firstFailure ?b = Some q"
      unfolding firstFailure_def by (subst find_takeWhile_dropWhile [where R = ?R]) simp
    moreover from q have "list_ex ?P (takeWhile ?R allCells)"
      by (auto simp: list_ex_iff)
    ultimately show ?thesis using sol by simp
  next
    case None
    from assms(2) have "dropWhile ?R allCells \<noteq> []"
      by (auto simp: list_ex_iff dropWhile_eq_Nil_conv)
    then obtain q rest where dq: "dropWhile ?R allCells = q # rest"
      by (cases "dropWhile ?R allCells") auto
    then have nr: "\<not> ?R q" by (metis hd_dropWhile list.sel(1) list.distinct(1))
    have "q \<in> set (dropWhile ?R allCells)" using dq by simp
    then have qa: "q \<in> set allCells" by (rule set_dropWhileD)
    from nr have "?P q" using passes_in_range by blast
    with None dq have "firstFailure ?b = Some q"
      unfolding firstFailure_def by (subst find_takeWhile_dropWhile [where R = ?R]) simp
    moreover from assms(1) qa nr have "verdict ?b q = rangeError"
      by (intro verdict_out_of_range is9x9_isArray9)
    moreover from None have "\<not> list_ex ?P (takeWhile ?R allCells)"
      by (auto simp: find_None_iff list_ex_iff)
    ultimately show ?thesis using sol by simp
  qed
qed

text \<open>The amended C3 at a full grid whose first cell is replaced by 10.\<close>
theorem range_error_unless_earlier_conflict_witness:
  "is9x9 (map RArr tenValue) \<and>
   list_ex (\<lambda>p. \<not> cellInRange (map RArr tenValue) p) allCells \<and>
   solveSudoku (JArr (map JArr tenValue)) = Inr rangeError"
proof -
  have a: "is9x9 (map RArr tenValue)" by code_simp
  have b: "list_ex (\<lambda>p. \<not> cellInRange (map RArr tenValue) p) allCells" by code_simp
  have c: "\<not> list_ex (\<lambda>p. \<not> passes (map RArr tenValue) p)
    (takeWhile (cellInRange (map RArr tenValue)) allCells)" by code_simp
  from range_error_unless_earlier_conflict [OF a b] a b c show ?thesis by simp
qed

text \<open>
  C3 as stated fails twice over. A full grid whose first cell is replaced by 2.5 passes
  validation and is returned as the solution, 2.5 included; and a first row 5, 5, 10, ... gives
  ConflictError, the conflict check on the first cell coming before the range check on the
  third.
\<close>
theorem range_error_counterexample:
  "solveSudoku (JArr (map JArr halfValue)) = Inr (success (map RArr halfValue)) \<and>
   solveSudoku (JArr (map JArr conflictFirst)) = Inr conflictError"
  by code_simp

section \<open>Grids of integers\<close>

lemma isGrid_shape: "isGrid g \<Longrightarrow> length g = 9 \<and> (\<forall>r<9. length (g ! r) = 9)"
  by (auto simp: isGrid_def list_all_length)

lemma isGrid_range: "isGrid g \<Longrightarrow> r < 9 \<Longrightarrow> c < 9 \<Longrightarrow> 0 \<le> g ! r ! c \<and> g ! r ! c \<le> 9"
  by (auto simp: isGrid_def list_all_length)

lemma boardOf_arrays: "boardOf g = map RArr (map (map (\<lambda>n. JNum (of_int n))) g)"
  by (simp add: boardOf_def)

lemma jsGrid_arrays: "jsGrid g = JArr (map JArr (map (map (\<lambda>n. JNum (of_int n))) g))"
  by (simp add: jsGrid_def)

lemma boardOf_isArray9: "isGrid g \<Longrightarrow> r < 9 \<Longrightarrow> isArray9 (boardOf g) r"
  by (auto simp: isArray9_def boardOf_def dest: isGrid_shape)

lemma boardOf_is9x9: "isGrid g \<Longrightarrow> is9x9 (boardOf g)"
  using boardOf_isArray9 [of g] by (auto simp: is9x9_def list_all_iff boardOf_def dest: isGrid_shape)

lemma boardOf_dense: "isGrid g \<Longrightarrow> dense (boardOf g)"
  by (rule is9x9_dense [OF boardOf_is9x9])

lemma getCell_boardOf:
  "isGrid g \<Longrightarrow> r < 9 \<Longrightarrow> c < 9 \<Longrightarrow> getCell (boardOf g) r c = Inr (JNum (of_int (g ! r ! c)))"
  by (auto simp: getCell_def boardOf_def dest: isGrid_shape)

lemma holds_boardOf:
  "isGrid g \<Longrightarrow> p \<in> set allCells \<Longrightarrow> holds (boardOf g) (of_int v) p \<longleftrightarrow> cellAt g p = v"
  by (cases p) (auto simp: holds_def cellAt_def set_allCells getCell_boardOf)

lemma hasConflict_iff:
  "hasConflict g \<longleftrightarrow>
   (\<exists>p\<in>set allCells. \<exists>q\<in>set allCells.
      p \<noteq> q \<and> sameUnit p q \<and> cellAt g p \<noteq> 0 \<and> cellAt g p = cellAt g q)"
  by (simp add: hasConflict_def list_ex_iff)

lemma passes_boardOf:
  assumes "isGrid g" and "p \<in> set allCells"
  shows "passes (boardOf g) p \<longleftrightarrow>
    (cellAt g p = 0 \<or> (\<forall>q\<in>set allCells. q \<noteq> p \<and> sameUnit p q \<longrightarrow> cellAt g q \<noteq> cellAt g p))"
proof -
  obtain r c where p: "p = (r, c)" by (cases p)
  with assms(2) have rc: "r < 9" "c < 9" by (auto simp: set_allCells)
  have u: "set (lineCells r c @ boxCells r c) = {q \<in> set allCells. sameUnit (r, c) q}"
    by (rule set_unitCells [OF rc])
  have h: "holds (boardOf g) (of_int (g ! r ! c)) q \<longleftrightarrow> cellAt g q = g ! r ! c"
    if "q \<in> set allCells" for q
    using holds_boardOf [OF assms(1) that] .
  have "list_all (\<lambda>p'. p' = (r, c) \<or> \<not> holds (boardOf g) (of_int (g ! r ! c)) p')
         (lineCells r c @ boxCells r c) \<longleftrightarrow>
        (\<forall>q\<in>set allCells. q \<noteq> (r, c) \<and> sameUnit (r, c) q \<longrightarrow> cellAt g q \<noteq> g ! r ! c)"
    unfolding list_all_iff u using h by auto
  then show ?thesis
    using assms(1) rc isGrid_range [OF assms(1) rc]
    by (simp add: passes_def p boardOf_isArray9 getCell_boardOf cellAt_def)
qed

lemma noFailure_boardOf:
  assumes "isGrid g"
  shows "firstFailure (boardOf g) = None \<longleftrightarrow> \<not> hasConflict g"
proof -
  have "firstFailure (boardOf g) = None \<longleftrightarrow> (\<forall>p\<in>set allCells. passes (boardOf g) p)"
    by (auto simp: firstFailure_def find_None_iff)
  also have "\<dots> \<longleftrightarrow> \<not> hasConflict g"
  proof
    assume a: "\<forall>p\<in>set allCells. passes (boardOf g) p"
    show "\<not> hasConflict g"
    proof
      assume "hasConflict g"
      then obtain p q where pq: "p \<in> set allCells" "q \<in> set allCells" "p \<noteq> q" "sameUnit p q"
        "cellAt g p \<noteq> 0" "cellAt g p = cellAt g q"
        unfolding hasConflict_iff by blast
      from a pq(1) have "passes (boardOf g) p" by blast
      with passes_boardOf [OF assms pq(1)] pq(5)
      have "\<forall>q\<in>set allCells. q \<noteq> p \<and> sameUnit p q \<longrightarrow> cellAt g q \<noteq> cellAt g p"
        by simp
      with pq show False by metis
    qed
  next
    assume n: "\<not> hasConflict g"
    show "\<forall>p\<in>set allCells. passes (boardOf g) p"
    proof
      fix p assume p: "p \<in> set allCells"
      have "cellAt g p = 0 \<or>
        (\<forall>q\<in>set allCells. q \<noteq> p \<and> sameUnit p q \<longrightarrow> cellAt g q \<noteq> cellAt g p)"
      proof (cases "cellAt g p = 0")
        case True
        then show ?thesis by simp
      next
        case False
        show ?thesis
        proof (intro disjI2 ballI impI)
          fix q
          assume "q \<in> set allCells" and "q \<noteq> p \<and> sameUnit p q"
          with n p False show "cellAt g q \<noteq> cellAt g p"
            unfolding hasConflict_iff by metis
        qed
      qed
      with passes_boardOf [OF assms p] show "passes (boardOf g) p" by simp
    qed
  qed
  finally show ?thesis .
qed

lemma verdict_boardOf:
  assumes "isGrid g" and "p \<in> set allCells"
  shows "verdict (boardOf g) p = conflictError"
proof -
  obtain r c where p: "p = (r, c)" by (cases p)
  with assms(2) have rc: "r < 9" "c < 9" by (auto simp: set_allCells)
  from isGrid_range [OF assms(1) rc] show ?thesis
    using assms(1) rc by (simp add: verdict_def p boardOf_isArray9 getCell_boardOf)
qed

lemma solveSudoku_grid:
  assumes "isGrid g"
  shows "solveSudoku (jsGrid g) =
    (if hasConflict g then Inr conflictError else searchResult (boardOf g))"
proof -
  have s: "solveSudoku (jsGrid g) =
    (case firstFailure (boardOf g) of
       Some p \<Rightarrow> Inr (verdict (boardOf g) p)
     | None \<Rightarrow> searchResult (boardOf g))"
    unfolding jsGrid_arrays boardOf_arrays
    using boardOf_dense [OF assms]
    by (intro solveSudoku_validated mapSlice_arrays) (simp add: boardOf_arrays)
  show ?thesis
  proof (cases "firstFailure (boardOf g)")
    case None
    with s noFailure_boardOf [OF assms] show ?thesis by simp
  next
    case (Some p)
    then have "p \<in> set allCells"
      by (auto simp: firstFailure_def find_Some_iff)
    from verdict_boardOf [OF assms this] s Some noFailure_boardOf [OF assms]
    show ?thesis by simp
  qed
qed

lemma searchResult_not_conflict: "searchResult board \<noteq> Inr conflictError"
  by (auto simp: searchResult_def conflictError_def unsolvableError_def failure_def success_def
      split: sum.splits prod.splits)

text \<open>
  C6. For every input that is a 9\<times>9 grid of integers from 0 to 9, \<open>solveSudoku\<close> returns
  the ConflictError result ("Puzzle has conflicting values.") if and only if two distinct cells
  in one row, one column or one 3\<times>3 box hold the same non-zero value: the clear, check and
  restore pass over the non-zero cells finds exactly the grids with such a pair.
\<close>
theorem conflict_error_iff:
  assumes "isGrid g"
  shows "solveSudoku (jsGrid g) = Inr conflictError \<longleftrightarrow> hasConflict g"
  using solveSudoku_grid [OF assms] searchResult_not_conflict [of "boardOf g"] by simp

lemma fullGrid_facts: "isGrid fullGrid" "isFull fullGrid" "\<not> hasConflict fullGrid"
  by code_simp+

lemma oneBlank_facts: "isGrid oneBlank" "\<not> hasConflict oneBlank"
  by code_simp+

lemma blocked_facts: "isGrid blocked" "\<not> hasConflict blocked"
  by code_simp+

theorem conflict_error_iff_witness:
  "isGrid fullGrid \<and> (solveSudoku (jsGrid fullGrid) = Inr conflictError \<longleftrightarrow> hasConflict fullGrid)"
proof -
  note g = fullGrid_facts(1)
  from conflict_error_iff [OF g] g show ?thesis by simp
qed

lemma isFull_nonzero: "isGrid g \<Longrightarrow> isFull g \<Longrightarrow> p \<in> set allCells \<Longrightarrow> cellAt g p \<noteq> 0"
  by (cases p) (auto simp: isFull_def cellAt_def set_allCells list_all_length dest!: isGrid_shape)

lemma solveBoard_full:
  assumes "isGrid g" and "isFull g"
  shows "solveBoard (boardOf g) = Inr (True, boardOf g)"
proof -
  have "\<forall>p\<in>set allCells. fst p < 9" by (auto simp: set_allCells)
  from findCell_find [OF boardOf_dense [OF assms(1)] this, of 0]
  have "findCell (boardOf g) 0 allCells = Inr (find (holds (boardOf g) (of_int 0)) allCells)"
    by simp
  moreover have "find (holds (boardOf g) (of_int 0)) allCells = None"
    unfolding find_None_iff using holds_boardOf [OF assms(1)] isFull_nonzero [OF assms] by blast
  ultimately show ?thesis by (simp add: solveBoard.simps)
qed

text \<open>
  C10. For every 9\<times>9 grid of integers from 1 to 9 in which no two equal values share a row,
  a column or a 3\<times>3 box, \<open>solveSudoku\<close> succeeds and the solution is the input grid: the
  search finds no empty cell and returns at once.
\<close>
theorem solved_grid_returned:
  assumes "isGrid g" and "isFull g" and "\<not> hasConflict g"
  shows "solveSudoku (jsGrid g) = Inr (success (boardOf g))"
  using solveSudoku_grid [OF assms(1)] assms(3) solveBoard_full [OF assms(1,2)]
  by (simp add: searchResult_def)

theorem solved_grid_returned_witness:
  "isGrid fullGrid \<and> isFull fullGrid \<and> \<not> hasConflict fullGrid \<and>
   solveSudoku (jsGrid fullGrid) = Inr (success (boardOf fullGrid))"
proof -
  note a = fullGrid_facts(1) and b = fullGrid_facts(2) and c = fullGrid_facts(3)
  from solved_grid_returned [OF a b c] a b c show ?thesis by simp
qed

section \<open>Completions of a grid\<close>

lemma keepsGivens_iff:
  "keepsGivens g s \<longleftrightarrow> (\<forall>p\<in>set allCells. cellAt g p \<noteq> 0 \<longrightarrow> cellAt s p = cellAt g p)"
  by (simp add: keepsGivens_def list_all_iff)

lemma fits_iff: "fits g p v \<longleftrightarrow> (\<forall>q\<in>set allCells. sameUnit p q \<longrightarrow> cellAt g q \<noteq> v)"
  by (simp add: fits_def list_all_iff)

lemma sameUnit_sym: "sameUnit p q \<Longrightarrow> sameUnit q p"
  by (auto simp: sameUnit_def)

lemma sameUnit_refl: "sameUnit p p"
  by (simp add: sameUnit_def)

lemma isGrid_setG:
  assumes "isGrid g" and "0 \<le> v" and "v \<le> 9"
  shows "isGrid (setG g r c v)"
proof -
  have row: "length ((g ! r)[c := v]) = 9 \<and> list_all (\<lambda>n. 0 \<le> n \<and> n \<le> 9) ((g ! r)[c := v])"
    if "r < length g"
  proof -
    from that assms(1) have "length (g ! r) = 9 \<and> list_all (\<lambda>n. 0 \<le> n \<and> n \<le> 9) (g ! r)"
      by (auto simp: isGrid_def list_all_length)
    with assms(2,3) show ?thesis
      using set_update_subset_insert [of "g ! r" c v] by (auto simp: list_all_iff)
  qed
  show ?thesis
  proof (cases "r < length g")
    case True
    with row assms(1) show ?thesis
      using set_update_subset_insert [of g r "(g ! r)[c := v]"]
      by (auto simp: isGrid_def setG_def list_all_iff)
  next
    case False
    with assms(1) show ?thesis by (simp add: setG_def list_update_beyond)
  qed
qed

lemma cellAt_setG:
  assumes "isGrid g" and "(r, c) \<in> set allCells"
  shows "cellAt (setG g r c v) p = (if p = (r, c) then v else cellAt g p)"
proof -
  from assms have "r < length g" "c < length (g ! r)"
    by (auto simp: set_allCells dest: isGrid_shape)
  then show ?thesis
    by (cases p) (auto simp: cellAt_def setG_def nth_list_update)
qed

lemma setG_restore:
  assumes "cellAt g (r, c) = v0"
  shows "setG (setG g r c v) r c v0 = g"
proof (cases "r < length g")
  case True
  from assms have "v0 = g ! r ! c" by (simp add: cellAt_def)
  with True show ?thesis
    by (simp add: setG_def)
next
  case False
  then show ?thesis by (simp add: setG_def list_update_beyond)
qed

lemma setG_keeps_consistency:
  assumes g: "isGrid g" and rc: "(r, c) \<in> set allCells" and n: "\<not> hasConflict g"
    and f: "fits g (r, c) v"
  shows "\<not> hasConflict (setG g r c v)"
proof
  let ?g = "setG g r c v"
  assume "hasConflict ?g"
  then obtain p q where pq: "p \<in> set allCells" "q \<in> set allCells" "p \<noteq> q" "sameUnit p q"
    "cellAt ?g p \<noteq> 0" "cellAt ?g p = cellAt ?g q"
    unfolding hasConflict_iff by blast
  note at = cellAt_setG [OF g rc, of v]
  consider "p = (r, c)" | "q = (r, c)" | "p \<noteq> (r, c)" "q \<noteq> (r, c)" by blast
  then show False
  proof cases
    case 1
    with pq at have "cellAt g q = v" "sameUnit (r, c) q" by auto
    with f pq(2) show False by (auto simp: fits_iff)
  next
    case 2
    with pq at have "cellAt g p = v" "sameUnit (r, c) p" by (auto dest: sameUnit_sym)
    with f pq(1) show False by (auto simp: fits_iff)
  next
    case 3
    with pq at have "cellAt g p \<noteq> 0" "cellAt g p = cellAt g q" by auto
    with pq n show False unfolding hasConflict_iff by blast
  qed
qed

lemma completes_setG:
  assumes "isGrid g" and "(r, c) \<in> set allCells" and "completes g s"
  shows "completes (setG g r c (cellAt s (r, c))) s"
  using assms(3) cellAt_setG [OF assms(1,2), of "cellAt s (r, c)"]
  by (auto simp: completes_def keepsGivens_iff)

lemma completes_setG_D:
  assumes "isGrid g" and "(r, c) \<in> set allCells" and "cellAt g (r, c) = 0" and "v \<noteq> 0"
    and "completes (setG g r c v) s"
  shows "completes g s \<and> cellAt s (r, c) = v"
proof -
  note at = cellAt_setG [OF assms(1,2), of v]
  from assms(5) have k: "\<forall>p\<in>set allCells. cellAt (setG g r c v) p \<noteq> 0 \<longrightarrow>
      cellAt s p = cellAt (setG g r c v) p"
    by (simp add: completes_def keepsGivens_iff)
  have "cellAt s p = cellAt g p" if "p \<in> set allCells" "cellAt g p \<noteq> 0" for p
  proof -
    from that assms(3) have "p \<noteq> (r, c)" by auto
    with k that at show ?thesis by simp
  qed
  moreover from k assms(2,4) at have "cellAt s (r, c) = v" by simp
  ultimately show ?thesis
    using assms(5) by (simp add: completes_def keepsGivens_iff)
qed

lemma completes_cell_range:
  assumes "completes g s" and "p \<in> set allCells"
  shows "1 \<le> cellAt s p \<and> cellAt s p \<le> 9"
proof -
  from assms have "isGrid s" "isFull s" by (auto simp: completes_def)
  from isFull_nonzero [OF this assms(2)] isGrid_range [OF \<open>isGrid s\<close>, of "fst p" "snd p"] assms(2)
  show ?thesis by (cases p) (auto simp: cellAt_def set_allCells)
qed

lemma completes_fits:
  assumes "completes g s" and "(r, c) \<in> set allCells" and "cellAt g (r, c) = 0"
  shows "fits g (r, c) (cellAt s (r, c))"
  unfolding fits_iff
proof (intro ballI impI notI)
  fix q
  assume q: "q \<in> set allCells" "sameUnit (r, c) q" "cellAt g q = cellAt s (r, c)"
  from completes_cell_range [OF assms(1,2)] have nz: "cellAt s (r, c) \<noteq> 0" by simp
  with q assms(3) have ne: "(r, c) \<noteq> q" by auto
  from assms(1) q nz have "cellAt s q = cellAt s (r, c)"
    by (auto simp: completes_def keepsGivens_iff)
  with assms(1,2) q ne nz show False
    unfolding completes_def hasConflict_iff by metis
qed

section \<open>The row-major order on completions\<close>

lemma lexLe_refl: "lexLe xs xs"
  by (induction xs) auto

lemma lexLe_first_diff:
  "length xs = length ys \<Longrightarrow> i < length xs \<Longrightarrow> \<forall>j<i. xs ! j = ys ! j \<Longrightarrow> xs ! i < ys ! i \<Longrightarrow>
   lexLe xs ys"
proof (induction xs ys arbitrary: i rule: lexLe.induct)
  case (1 ys)
  then show ?case by simp
next
  case (2 x xs)
  then show ?case by simp
next
  case (3 x xs y ys)
  show ?case
  proof (cases i)
    case 0
    with 3 show ?thesis by simp
  next
    case (Suc k)
    with 3(3,4) have "\<forall>j<k. xs ! j = ys ! j" "x = y" by auto
    with 3(1) [of k] 3(2,3,5) Suc show ?thesis by auto
  qed
qed

lemma concat_nth:
  "\<forall>row\<in>set g. length row = n \<Longrightarrow> i < length g * n \<Longrightarrow>
   concat g ! i = g ! (i div n) ! (i mod n)"
proof (induction g arbitrary: i)
  case Nil
  then show ?case by simp
next
  case (Cons row g)
  show ?case
  proof (cases "i < n")
    case True
    with Cons show ?thesis by (simp add: nth_append)
  next
    case False
    then have n: "n \<le> i" by simp
    with Cons(3) have "0 < n" by (cases n) auto
    from n have d: "i div n = Suc ((i - n) div n)" "i mod n = (i - n) mod n"
      using \<open>0 < n\<close> by (simp_all add: le_div_geq le_mod_geq)
    from Cons(3) n have "i - n < length g * n" by simp
    with Cons(1) [of "i - n"] Cons(2) have "concat g ! (i - n) = g ! ((i - n) div n) ! ((i - n) mod n)"
      by simp
    with Cons(2) False d show ?thesis by (simp add: nth_append)
  qed
qed

lemma concat_length: "\<forall>row\<in>set g. length row = n \<Longrightarrow> length (concat g) = length g * n"
  by (induction g) auto

lemma allCells_index: "allCells = map (\<lambda>i. (i div 9, i mod 9)) [0..<81]"
  by code_simp

lemma flat_nth:
  assumes "isGrid g" and "i < 81"
  shows "concat g ! i = cellAt g (allCells ! i)"
proof -
  from assms(1) have r: "\<forall>row\<in>set g. length row = 9" and l: "length g = 9"
    by (auto simp: isGrid_def list_all_iff)
  from concat_nth [OF r, of i] l assms(2) show ?thesis
    by (simp add: allCells_index cellAt_def)
qed

lemma flat_length: "isGrid g \<Longrightarrow> length (concat g) = 81"
  using concat_length [of g 9] by (auto simp: isGrid_def list_all_iff)

lemma lexLe_completions:
  assumes g: "isGrid g" and s: "completes g s" and s': "completes g s'"
    and f: "firstEmpty g = Some p" and lt: "cellAt s p < cellAt s' p"
  shows "lexLe (concat s) (concat s')"
proof -
  from f obtain i where i: "i < length allCells" "allCells ! i = p"
    and before: "\<forall>j<i. cellAt g (allCells ! j) \<noteq> 0"
    unfolding firstEmpty_def find_Some_iff by blast
  have len: "length allCells = 81" by (simp add: allCells_index)
  from s s' have gs: "isGrid s" "isGrid s'" by (auto simp: completes_def)
  have "concat s ! j = concat s' ! j" if "j < i" for j
  proof -
    from that i len have j: "j < 81" by simp
    then have "allCells ! j \<in> set allCells" using len by (metis nth_mem)
    with before that s s' have "cellAt s (allCells ! j) = cellAt s' (allCells ! j)"
      by (auto simp: completes_def keepsGivens_iff)
    with j gs show ?thesis by (simp add: flat_nth)
  qed
  moreover have "concat s ! i < concat s' ! i"
    using i len lt gs by (simp add: flat_nth)
  ultimately show ?thesis
    using i len gs by (intro lexLe_first_diff [of _ _ i]) (simp_all add: flat_length)
qed

lemma completes_full_grid:
  assumes g: "isGrid g" and n: "\<not> hasConflict g" and f: "firstEmpty g = None"
  shows "completes g g" and "completes g s' \<Longrightarrow> lexLe (concat g) (concat s')"
proof -
  from f have nz: "\<forall>p\<in>set allCells. cellAt g p \<noteq> 0"
    by (auto simp: firstEmpty_def find_None_iff)
  have "isFull g"
    unfolding isFull_def list_all_length
  proof (intro allI impI)
    fix r c assume "r < length g" "c < length (g ! r)"
    with g have "(r, c) \<in> set allCells" by (auto simp: set_allCells dest: isGrid_shape)
    with nz show "g ! r ! c \<noteq> 0" by (auto simp: cellAt_def)
  qed
  with g n show c: "completes g g" by (simp add: completes_def keepsGivens_iff)
  assume s': "completes g s'"
  then have gs: "isGrid s'" by (simp add: completes_def)
  have "concat s' = concat g"
  proof (rule nth_equalityI)
    show "length (concat s') = length (concat g)" using g gs by (simp add: flat_length)
  next
    fix i assume "i < length (concat s')"
    with gs have i: "i < 81" by (simp add: flat_length)
    have "length allCells = 81" by (simp add: allCells_index)
    with i have "allCells ! i \<in> set allCells" by (metis nth_mem)
    with nz s' have "cellAt s' (allCells ! i) = cellAt g (allCells ! i)"
      by (auto simp: completes_def keepsGivens_iff)
    with i g gs show "concat s' ! i = concat g ! i" by (simp add: flat_nth)
  qed
  then show "lexLe (concat g) (concat s')" by (simp add: lexLe_refl)
qed

lemma setCell_boardOf:
  assumes "isGrid g" and "(r, c) \<in> set allCells"
  shows "setCell (boardOf g) r c (JNum (of_int v)) = Inr (boardOf (setG g r c v))"
proof -
  from assms have rc: "r < length g" "c < length (g ! r)"
    by (auto simp: set_allCells dest: isGrid_shape)
  then show ?thesis
    by (simp add: setCell_def boardOf_def setG_def map_update)
qed

lemma findCell_boardOf:
  assumes "isGrid g"
  shows "findCell (boardOf g) 0 allCells = Inr (firstEmpty g)"
proof -
  have "\<forall>p\<in>set allCells. fst p < 9" by (auto simp: set_allCells)
  from findCell_find [OF boardOf_dense [OF assms] this, of 0]
  have "findCell (boardOf g) 0 allCells = Inr (find (holds (boardOf g) (of_int 0)) allCells)"
    by simp
  also have "find (holds (boardOf g) (of_int 0)) allCells = find (\<lambda>p. cellAt g p = 0) allCells"
    using holds_boardOf [OF assms, of _ 0] by (intro find_cong) simp_all
  finally show ?thesis by (simp add: firstEmpty_def)
qed

lemma isValid_boardOf:
  assumes "isGrid g" and "(r, c) \<in> set allCells"
  shows "isValid (boardOf g) r c (of_int v) = Inr (fits g (r, c) v)"
proof -
  from assms(2) have rc: "r < 9" "c < 9" by (auto simp: set_allCells)
  have "(\<forall>p\<in>set (lineCells r c @ boxCells r c). \<not> holds (boardOf g) (of_int v) p) \<longleftrightarrow>
    (\<forall>q\<in>set allCells. sameUnit (r, c) q \<longrightarrow> cellAt g q \<noteq> v)"
    unfolding set_unitCells [OF rc] using holds_boardOf [OF assms(1)] by auto
  with isValid_dense [OF boardOf_dense [OF assms(1)] rc, of "of_int v"]
  show ?thesis by (simp add: fits_iff)
qed

section \<open>The search returns the first completion in row-major order\<close>

lemma trySpec_skip:
  assumes "\<forall>s. completes g s \<longrightarrow> cellAt s p \<noteq> int v" and "trySpec g p (v + 1) res"
  shows "trySpec g p v res"
proof -
  have "(\<lambda>s. completes g s \<and> int v \<le> cellAt s p) = (\<lambda>s. completes g s \<and> int (v + 1) \<le> cellAt s p)"
  proof (rule ext)
    fix s
    show "(completes g s \<and> int v \<le> cellAt s p) = (completes g s \<and> int (v + 1) \<le> cellAt s p)"
      using assms(1) by (cases "completes g s") (auto simp: order_less_le)
  qed
  with assms(2) show ?thesis unfolding trySpec_def by (simp only:)
qed

lemma trySpec_start:
  assumes "p \<in> set allCells" and "trySpec g p 1 res"
  shows "solveSpec g res"
proof -
  have "(\<lambda>s. completes g s \<and> int 1 \<le> cellAt s p) = completes g"
  proof (rule ext)
    fix s
    show "(completes g s \<and> int 1 \<le> cellAt s p) = completes g s"
      using completes_cell_range [OF _ assms(1), of g s] by auto
  qed
  with assms(2) show ?thesis unfolding trySpec_def solveSpec_def by (simp only:)
qed

lemma firstEmpty_Some:
  "firstEmpty g = Some p \<Longrightarrow> p \<in> set allCells \<and> cellAt g p = 0"
  by (auto simp: firstEmpty_def find_Some_iff)

lemma search_spec:
  shows "isGrid g \<Longrightarrow> \<not> hasConflict g \<Longrightarrow> board = boardOf g \<Longrightarrow> solveSpec g (solveBoard board)"
    and "isGrid g \<Longrightarrow> \<not> hasConflict g \<Longrightarrow> board' = boardOf g \<Longrightarrow>
         firstEmpty g = Some (row, col) \<Longrightarrow> 1 \<le> v \<Longrightarrow>
         trySpec g (row, col) v (tryValues board' row col v)"
proof (induction board and board' row col v arbitrary: g and g rule: solveBoard_tryValues.induct)
  case (1 board)
  note g = \<open>isGrid g\<close> and n = \<open>\<not> hasConflict g\<close> and b = \<open>board = boardOf g\<close>
  from findCell_boardOf [OF g] b have f: "findCell board 0 allCells = Inr (firstEmpty g)"
    by simp
  show ?case
  proof (cases "firstEmpty g")
    case None
    with f have "solveBoard board = Inr (True, boardOf g)" by (simp add: b solveBoard.simps)
    with completes_full_grid [OF g n None] show ?thesis
      by (auto simp: solveSpec_def leastIn_def)
  next
    case (Some p)
    obtain row col where p: "p = (row, col)" by (cases p)
    from f Some p have s: "solveBoard board = tryValues board row col 1"
      by (simp add: solveBoard.simps)
    from Some p have fe: "firstEmpty g = Some (row, col)" by simp
    have t1: "trySpec g (row, col) 1 (tryValues board row col 1)"
      by (rule "1.IH" [OF f [unfolded Some p] refl refl g n b fe]) simp
    from firstEmpty_Some [OF fe] have pin: "(row, col) \<in> set allCells" by simp
    from trySpec_start [OF pin t1] show ?thesis by (simp only: s)
  qed
next
  case (2 board row col v)
  note g = \<open>isGrid g\<close> and n = \<open>\<not> hasConflict g\<close> and b = \<open>board = boardOf g\<close>
    and fe = \<open>firstEmpty g = Some (row, col)\<close> and v1 = \<open>1 \<le> v\<close>
  from firstEmpty_Some [OF fe] have p: "(row, col) \<in> set allCells" and z: "cellAt g (row, col) = 0"
    by simp_all
  show ?case
  proof (cases "v \<le> 9")
    case False
    then have t: "tryValues board row col v = Inr (False, boardOf g)"
      by (subst tryValues.simps) (simp add: b)
    have "\<not> (\<exists>s. completes g s \<and> int v \<le> cellAt s (row, col))"
      using completes_cell_range [OF _ p, of g] False by fastforce
    with t show ?thesis by (simp add: trySpec_def leastIn_def)
  next
    case v9: True
    have iv: "isValid board row col (of_nat v) = Inr (fits g (row, col) (int v))"
      using isValid_boardOf [OF g p, of "int v"] b by simp
    show ?thesis
    proof (cases "fits g (row, col) (int v)")
      case False
      with v9 iv have t: "tryValues board row col v = tryValues board row col (v + 1)"
        by (subst tryValues.simps) simp
      have "trySpec g (row, col) (v + 1) (tryValues board row col (v + 1))"
        by (rule "2.IH"(3) [OF v9 iv False g n b fe]) simp
      moreover have "\<forall>s. completes g s \<longrightarrow> cellAt s (row, col) \<noteq> int v"
        using completes_fits [OF _ p z] False by metis
      ultimately show ?thesis
        unfolding t by (rule trySpec_skip [rotated])
    next
      case True
      let ?g1 = "setG g row col (int v)"
      have sc: "setCell board row col (JNum (of_nat v)) = Inr (boardOf ?g1)"
        using setCell_boardOf [OF g p, of "int v"] b by simp
      from v9 have g1: "isGrid ?g1" by (intro isGrid_setG g) simp_all
      have n1: "\<not> hasConflict ?g1" by (rule setG_keeps_consistency [OF g p n True])
      have spec1: "solveSpec ?g1 (solveBoard (boardOf ?g1))"
        by (rule "2.IH"(1) [OF v9 iv True sc g1 n1 refl])
      from v1 have vnz: "int v \<noteq> 0" by simp
      show ?thesis
      proof (cases "\<exists>s. completes ?g1 s")
        case True
        with spec1 obtain s where s: "solveBoard (boardOf ?g1) = Inr (True, boardOf s)"
          "completes ?g1 s" "\<forall>s'. completes ?g1 s' \<longrightarrow> lexLe (concat s) (concat s')"
          by (auto simp: solveSpec_def leastIn_def)
        from v9 iv \<open>fits g (row, col) (int v)\<close> sc s(1)
        have t: "tryValues board row col v = Inr (True, boardOf s)"
          by (subst tryValues.simps) simp
        from completes_setG_D [OF g p z vnz s(2)]
        have cs: "completes g s" "cellAt s (row, col) = int v" by simp_all
        have "lexLe (concat s) (concat s')"
          if s': "completes g s'" "int v \<le> cellAt s' (row, col)" for s'
        proof (cases "cellAt s' (row, col) = int v")
          case True
          with completes_setG [OF g p s'(1)] have "completes ?g1 s'" by simp
          with s(3) show ?thesis by blast
        next
          case False
          with s'(2) cs(2) have "cellAt s (row, col) < cellAt s' (row, col)" by simp
          from lexLe_completions [OF g cs(1) s'(1) fe this] show ?thesis .
        qed
        with t cs show ?thesis
          unfolding trySpec_def leastIn_def by (auto intro!: exI [of _ s])
      next
        case False
        with spec1 have s: "solveBoard (boardOf ?g1) = Inr (False, boardOf ?g1)"
          by (simp add: solveSpec_def leastIn_def)
        have restore: "setCell (boardOf ?g1) row col (JNum 0) = Inr (boardOf g)"
          using setCell_boardOf [OF g1 p, of 0] setG_restore [OF z, of "int v"] by simp
        from v9 iv \<open>fits g (row, col) (int v)\<close> sc s restore
        have t: "tryValues board row col v = tryValues (boardOf g) row col (v + 1)"
          by (subst tryValues.simps) simp
        have "trySpec g (row, col) (v + 1) (tryValues (boardOf g) row col (v + 1))"
          by (rule "2.IH"(2) [OF v9 iv \<open>fits g (row, col) (int v)\<close> sc s refl _ restore g n refl fe])
            simp_all
        moreover have "\<forall>s. completes g s \<longrightarrow> cellAt s (row, col) \<noteq> int v"
        proof (intro allI impI notI)
          fix s assume "completes g s" "cellAt s (row, col) = int v"
          with completes_setG [OF g p, of s] have "completes ?g1 s" by simp
          with False show False by blast
        qed
        ultimately show ?thesis
          unfolding t by (rule trySpec_skip [rotated])
      qed
    qed
  qed
qed

section \<open>Results of \<open>solveSudoku\<close> on consistent grids\<close>

lemma search_found:
  assumes "isGrid g" and "\<not> hasConflict g" and "completes g s0"
  shows "\<exists>s. solveSudoku (jsGrid g) = Inr (success (boardOf s)) \<and> completes g s \<and>
    (\<forall>s'. completes g s' \<longrightarrow> lexLe (concat s) (concat s'))"
proof -
  from search_spec(1) [OF assms(1,2) refl] have "leastIn (completes g) g (solveBoard (boardOf g))"
    by (simp add: solveSpec_def)
  moreover from assms(3) have "\<exists>s. completes g s" by blast
  ultimately obtain s where s: "solveBoard (boardOf g) = Inr (True, boardOf s)" "completes g s"
    "\<forall>s'. completes g s' \<longrightarrow> lexLe (concat s) (concat s')"
    unfolding leastIn_def by (simp only: if_True) blast
  from solveSudoku_grid [OF assms(1)] assms(2) s(1)
  have "solveSudoku (jsGrid g) = Inr (success (boardOf s))"
    by (simp add: searchResult_def)
  with s(2,3) show ?thesis by blast
qed

lemma search_exhausted:
  assumes "isGrid g" and "\<not> hasConflict g" and "\<not> (\<exists>s. completes g s)"
  shows "solveSudoku (jsGrid g) = Inr unsolvableError"
proof -
  from search_spec(1) [OF assms(1,2) refl] have "leastIn (completes g) g (solveBoard (boardOf g))"
    by (simp add: solveSpec_def)
  with assms(3) have "solveBoard (boardOf g) = Inr (False, boardOf g)"
    unfolding leastIn_def by (simp only: if_False)
  with solveSudoku_grid [OF assms(1)] assms(2) show ?thesis
    by (simp add: searchResult_def)
qed

lemma success_not_unsolvable: "success b \<noteq> unsolvableError"
  by (simp add: success_def unsolvableError_def failure_def)

text \<open>
  C1. For every input that is a 9\<times>9 grid of integers from 0 to 9 without a conflict among its
  non-zero cells, a solution returned by \<open>solveSudoku\<close> is a 9\<times>9 grid with every cell in
  1..9, in which no two equal values share a row, a column or a 3\<times>3 box, and which holds in
  every cell that was non-zero in the input the value of the input.
\<close>
theorem solution_completes:
  assumes "isGrid g" and "\<not> hasConflict g"
    and "solveSudoku (jsGrid g) = Inr res" and "solution res = Some b"
  shows "\<exists>s. b = boardOf s \<and> isGrid s \<and> isFull s \<and> \<not> hasConflict s \<and> keepsGivens g s"
proof (cases "\<exists>s. completes g s")
  case True
  then obtain s0 where "completes g s0" by blast
  from search_found [OF assms(1,2) this] obtain s
    where "solveSudoku (jsGrid g) = Inr (success (boardOf s))" "completes g s"
    by blast
  with assms(3,4) show ?thesis
    by (auto simp: success_def completes_def)
next
  case False
  from search_exhausted [OF assms(1,2) False] assms(3,4) show ?thesis
    by (simp add: unsolvableError_def failure_def)
qed

theorem solution_completes_witness:
  "isGrid oneBlank \<and> \<not> hasConflict oneBlank \<and>
   solveSudoku (jsGrid oneBlank) = Inr (success (boardOf fullGrid)) \<and>
   solution (success (boardOf fullGrid)) = Some (boardOf fullGrid) \<and>
   (\<exists>s. boardOf fullGrid = boardOf s \<and> isGrid s \<and> isFull s \<and> \<not> hasConflict s \<and>
        keepsGivens oneBlank s)"
proof -
  note a = oneBlank_facts(1) and b = oneBlank_facts(2)
  have c: "solveSudoku (jsGrid oneBlank) = Inr (success (boardOf fullGrid))" by code_simp
  have d: "solution (success (boardOf fullGrid)) = Some (boardOf fullGrid)"
    by (simp add: success_def)
  from solution_completes [OF a b c d] a b c d show ?thesis by blast
qed

text \<open>
  C2. For every input that is a 9\<times>9 grid of integers from 0 to 9 without a conflict among its
  non-zero cells, \<open>solveSudoku\<close> returns the UnsolvableError result ("No solution found.")
  if and only if no assignment of digits 1..9 to the zero cells satisfies the row, column and
  box constraints: the search is exhaustive.
\<close>
theorem unsolvable_iff:
  assumes "isGrid g" and "\<not> hasConflict g"
  shows "solveSudoku (jsGrid g) = Inr unsolvableError \<longleftrightarrow> \<not> (\<exists>s. completes g s)"
proof
  assume u: "solveSudoku (jsGrid g) = Inr unsolvableError"
  show "\<not> (\<exists>s. completes g s)"
  proof
    assume "\<exists>s. completes g s"
    then obtain s0 where "completes g s0" by blast
    from search_found [OF assms this] u show False
      using success_not_unsolvable by (metis sum.inject(2))
  qed
next
  assume "\<not> (\<exists>s. completes g s)"
  then show "solveSudoku (jsGrid g) = Inr unsolvableError"
    by (rule search_exhausted [OF assms])
qed

theorem unsolvable_iff_witness:
  "isGrid blocked \<and> \<not> hasConflict blocked \<and>
   (solveSudoku (jsGrid blocked) = Inr unsolvableError \<longleftrightarrow> \<not> (\<exists>s. completes blocked s))"
proof -
  note a = blocked_facts(1) and b = blocked_facts(2)
  from unsolvable_iff [OF a b] a b show ?thesis by blast
qed

text \<open>The grid of the witness is reported unsolvable: its first cell admits no digit.\<close>
lemma blocked_unsolvable: "solveSudoku (jsGrid blocked) = Inr unsolvableError"
  by code_simp

text \<open>
  C7. For every valid, conflict-free 9\<times>9 input grid that has a completion, the solution
  returned by \<open>solveSudoku\<close> is the least completion in the lexicographic order on the 81
  cell values read in row-major order. The result being a function of the input, it is the
  same at every call.
\<close>
theorem first_solution_least:
  assumes "isGrid g" and "\<not> hasConflict g" and "completes g s0"
  shows "\<exists>s. solveSudoku (jsGrid g) = Inr (success (boardOf s)) \<and> completes g s \<and>
    (\<forall>s'. completes g s' \<longrightarrow> lexLe (concat s) (concat s'))"
  using assms by (rule search_found)

theorem first_solution_least_witness:
  "isGrid oneBlank \<and> \<not> hasConflict oneBlank \<and> completes oneBlank fullGrid \<and>
   (\<exists>s. solveSudoku (jsGrid oneBlank) = Inr (success (boardOf s)) \<and> completes oneBlank s \<and>
     (\<forall>s'. completes oneBlank s' \<longrightarrow> lexLe (concat s) (concat s')))"
proof -
  note a = oneBlank_facts(1) and b = oneBlank_facts(2)
  have "keepsGivens oneBlank fullGrid" by code_simp
  then have c: "completes oneBlank fullGrid"
    by (simp add: completes_def fullGrid_facts)
  from first_solution_least [OF a b c] a b c show ?thesis by blast
qed

section \<open>The caller's arrays are not written\<close>

lemma step_refl: "step n0 board h h"
  by (simp add: step_def)

lemma step_trans: "step n0 board h h1 \<Longrightarrow> step n0 board h1 h2 \<Longrightarrow> step n0 board h h2"
  by (simp add: step_def)

lemma step_owned: "owned n0 h board \<Longrightarrow> step n0 board h h' \<Longrightarrow> owned n0 h' board"
  by (simp add: owned_def step_def)

lemma elemH_ref: "elemH h board r = HRef a \<Longrightarrow> HRef a \<in> set (h ! board)"
  by (auto simp: elemH_def split: if_splits dest: nth_mem)

lemma setCellH_step:
  assumes "owned n0 h board" and "setCellH h board r c v = Inr h'"
  shows "step n0 board h h'"
proof -
  from assms(2) obtain a where a: "elemH h board r = HRef a" "a < length h"
    and h': "h' = h[a := (if c < length (h ! a) then (h ! a)[c := v]
                          else h ! a @ replicate (c - length (h ! a)) HHole @ [v])]"
    by (auto simp: setCellH_def split: hval.splits if_splits)
  from elemH_ref [OF a(1)] assms(1) have "n0 \<le> a" "a \<noteq> board"
    by (auto simp: owned_def)
  with h' show ?thesis by (simp add: step_def)
qed

lemma checkCellH_step:
  assumes "owned n0 h board" and "checkCellH h board row col = (s, h')"
  shows "step n0 board h h'"
proof -
  have two: "step n0 board h h2"
    if "setCellH h board row col x = Inr h1" "setCellH h1 board row col y = Inr h2" for x y h1 h2
  proof -
    from setCellH_step [OF assms(1) that(1)] have 1: "step n0 board h h1" .
    from setCellH_step [OF step_owned [OF assms(1) 1] that(2)] 1 show ?thesis
      by (rule step_trans [rotated])
  qed
  from assms(2) show ?thesis
    unfolding checkCellH_def
    by (auto split: sum.splits hval.splits if_splits
        intro: step_refl setCellH_step [OF assms(1)] two)
qed

lemma checkColsH_step:
  "owned n0 h board \<Longrightarrow> checkColsH h board row cols = (s, h') \<Longrightarrow> step n0 board h h'"
proof (induction cols arbitrary: h)
  case Nil
  then show ?case by (simp add: step_refl)
next
  case (Cons col cols)
  obtain s1 h1 where c: "checkCellH h board row col = (s1, h1)" by (cases "checkCellH h board row col")
  from checkCellH_step [OF Cons(2) c] have 1: "step n0 board h h1" .
  show ?case
  proof (cases "s1 = SNext")
    case True
    with Cons(3) c have "checkColsH h1 board row cols = (s, h')" by simp
    from Cons(1) [OF step_owned [OF Cons(2) 1] this] 1 show ?thesis
      by (rule step_trans [rotated])
  next
    case False
    with Cons(3) c have "h' = h1" by (cases s1) auto
    with 1 show ?thesis by simp
  qed
qed

lemma checkRowsH_step:
  "owned n0 h board \<Longrightarrow> checkRowsH h board rows = (s, h') \<Longrightarrow> step n0 board h h'"
proof (induction rows arbitrary: h)
  case Nil
  then show ?case by (simp add: step_refl)
next
  case (Cons row rows)
  show ?case
  proof (cases "isArray9H h board row")
    case False
    with Cons(3) show ?thesis by (simp add: step_refl)
  next
    case True
    obtain s1 h1 where c: "checkColsH h board row [0..<9] = (s1, h1)"
      by (cases "checkColsH h board row [0..<9]")
    from checkColsH_step [OF Cons(2) c] have 1: "step n0 board h h1" .
    show ?thesis
    proof (cases "s1 = SNext")
      case s: True
      with Cons(3) c True have "checkRowsH h1 board rows = (s, h')" by simp
      from Cons(1) [OF step_owned [OF Cons(2) 1] this] 1 show ?thesis
        by (rule step_trans [rotated])
    next
      case False
      with Cons(3) c True have "h' = h1" by (cases s1) auto
      with 1 show ?thesis by simp
    qed
  qed
qed

lemma search_step:
  shows "owned n0 h board \<Longrightarrow> solveBoardH fuel h board = (r, h') \<Longrightarrow> step n0 board h h'"
    and "owned n0 h1 board1 \<Longrightarrow> tryValuesH fuel1 h1 board1 row col v = (r1, h1') \<Longrightarrow>
         step n0 board1 h1 h1'"
proof (induction fuel h board and fuel1 h1 board1 row col v arbitrary: r h' and r1 h1'
    rule: solveBoardH_tryValuesH.induct)
  case (1 h board)
  then show ?case by (simp add: step_refl)
next
  case (2 fuel h board)
  show ?case
  proof (cases "findCellH h board 0 allCells")
    case (Inl e)
    with 2(3) show ?thesis by (simp add: step_refl)
  next
    case (Inr found)
    show ?thesis
    proof (cases found)
      case None
      with Inr 2(3) show ?thesis by (simp add: step_refl)
    next
      case (Some p)
      obtain row col where p: "p = (row, col)" by (cases p)
      with Inr Some 2(3) have "tryValuesH fuel h board row col 1 = (r, h')" by simp
      from 2(1) [OF Inr Some p [symmetric] 2(2) this] show ?thesis .
    qed
  qed
next
  case (3 fuel h board row col v)
  note t = \<open>tryValuesH fuel h board row col v = (r1, h1')\<close>
  note pr = \<open>owned n0 h board\<close>
  show ?case
  proof (cases "v \<le> 9")
    case False
    with t show ?thesis by (simp add: step_refl)
  next
    case v9: True
    show ?thesis
    proof (cases "isValidH h board row col (of_nat v)")
      case (Inl e)
      with t v9 show ?thesis by (simp add: step_refl)
    next
      case (Inr ok)
      show ?thesis
      proof (cases ok)
        case False
        with t v9 Inr have "tryValuesH fuel h board row col (v + 1) = (r1, h1')" by simp
        from 3(3) [OF v9 Inr False pr this] show ?thesis .
      next
        case True
        show ?thesis
        proof (cases "setCellH h board row col (HNum (of_nat v))")
          case (Inl e)
          with t v9 Inr True show ?thesis by (simp add: step_refl)
        next
          case sc: (Inr ha)
          from setCellH_step [OF pr sc] have s1: "step n0 board h ha" .
          note pa = step_owned [OF pr s1]
          obtain r2 h2 where sb: "solveBoardH fuel ha board = (r2, h2)"
            by (cases "solveBoardH fuel ha board")
          from 3(1) [OF v9 Inr True sc pa sb] have s2: "step n0 board ha h2" .
          note p2 = step_owned [OF pa s2]
          note s12 = step_trans [OF s1 s2]
          show ?thesis
          proof (cases "r2 = Done False")
            case False
            with t v9 Inr True sc sb have "h1' = h2" by simp
            with s12 show ?thesis by simp
          next
            case d: True
            show ?thesis
            proof (cases "setCellH h2 board row col (HNum 0)")
              case (Inl e)
              with t v9 Inr True sc sb d have "h1' = h2" by simp
              with s12 show ?thesis by simp
            next
              case s0: (Inr h3)
              from setCellH_step [OF p2 s0] have s3: "step n0 board h2 h3" .
              from t v9 Inr True sc sb d s0
              have "tryValuesH fuel h3 board row col (v + 1) = (r1, h1')" by simp
              from 3(2) [OF v9 Inr True sc sb [symmetric] d s0 step_owned [OF p2 s3] this]
              have "step n0 board h3 h1'" .
              with s12 s3 show ?thesis by (blast intro: step_trans)
            qed
          qed
        qed
      qed
    qed
  qed
qed

lemma mapSliceH_extends:
  "mapSliceH h xs = (r, h') \<Longrightarrow>
   take (length h) h' = h \<and> length h \<le> length h' \<and>
   (\<forall>ys. r = Inr ys \<longrightarrow> (\<forall>x\<in>set ys. \<forall>a. x = HRef a \<longrightarrow> length h \<le> a \<and> a < length h'))"
proof (induction xs arbitrary: h r h')
  case Nil
  then show ?case by auto
next
  case (Cons x xs)
  have same: ?case
    if m: "mapSliceH h xs = (r0, h')" and r: "r = (case r0 of Inl e \<Rightarrow> Inl e | Inr ys \<Rightarrow> Inr (y # ys))"
      and y: "\<forall>a. y \<noteq> HRef a" for r0 y
    using Cons(1) [OF m] r y by (auto split: sum.splits)
  show ?case
  proof (cases x)
    case (HRef a)
    show ?thesis
    proof (cases "a < length h")
      case False
      with Cons(2) HRef show ?thesis by auto
    next
      case True
      obtain r0 h0 where m: "mapSliceH (h @ [h ! a]) xs = (r0, h0)"
        by (cases "mapSliceH (h @ [h ! a]) xs")
      from Cons(1) [OF m] have ih: "take (Suc (length h)) h0 = h @ [h ! a]" "Suc (length h) \<le> length h0"
        "\<forall>ys. r0 = Inr ys \<longrightarrow> (\<forall>x\<in>set ys. \<forall>a. x = HRef a \<longrightarrow> Suc (length h) \<le> a \<and> a < length h0)"
        by simp_all
      from ih(1) have "take (length h) (take (Suc (length h)) h0) = take (length h) (h @ [h ! a])"
        by simp
      then have tk: "take (length h) h0 = h" by (simp add: min_def)
      from Cons(2) HRef True m have r: "h' = h0" "r = (case r0 of Inl e \<Rightarrow> Inl e | Inr ys \<Rightarrow> Inr (HRef (length h) # ys))"
        by (auto split: sum.splits)
      with tk ih(2,3) show ?thesis by (auto split: sum.splits)
    qed
  next
    case HHole
    obtain r0 h0 where m: "mapSliceH h xs = (r0, h0)" by (cases "mapSliceH h xs")
    with Cons(2) HHole have "h' = h0" "r = (case r0 of Inl e \<Rightarrow> Inl e | Inr ys \<Rightarrow> Inr (HHole # ys))"
      by (auto split: sum.splits)
    with m show ?thesis by (intro same [of r0 HHole]) simp_all
  next
    case (HStr s)
    obtain r0 h0 where m: "mapSliceH h xs = (r0, h0)" by (cases "mapSliceH h xs")
    with Cons(2) HStr have "h' = h0" "r = (case r0 of Inl e \<Rightarrow> Inl e | Inr ys \<Rightarrow> Inr (HStr s # ys))"
      by (auto split: sum.splits)
    with m show ?thesis by (intro same [of r0 "HStr s"]) simp_all
  qed (use Cons(2) in auto)
qed

lemma store_frame: "take (length h) (snd (solveSudokuH fuel h rows)) = h"
proof (cases "\<exists>a. rows = HRef a \<and> a < length h \<and> length (h ! a) = 9")
  case False
  then show ?thesis by (cases rows) (auto simp: solveSudokuH_def)
next
  case True
  then obtain a where a: "rows = HRef a" "a < length h" "length (h ! a) = 9" by blast
  obtain r1 h1 where m: "mapSliceH h (h ! a) = (r1, h1)" by (cases "mapSliceH h (h ! a)")
  from mapSliceH_extends [OF m] have ext: "take (length h) h1 = h" "length h \<le> length h1"
    "\<forall>ys. r1 = Inr ys \<longrightarrow> (\<forall>x\<in>set ys. \<forall>a. x = HRef a \<longrightarrow> length h \<le> a \<and> a < length h1)"
    by simp_all
  show ?thesis
  proof (cases r1)
    case (Inl e)
    with a m ext show ?thesis by (simp add: solveSudokuH_def)
  next
    case (Inr copies)
    let ?b = "length h1" and ?h2 = "h1 @ [copies]"
    from ext Inr have pr: "owned (length h) ?h2 ?b"
      by (auto simp: owned_def)
    from ext have t2: "take (length h) ?h2 = h" by simp
    obtain s h3 where c: "checkRowsH ?h2 ?b [0..<9] = (s, h3)"
      by (cases "checkRowsH ?h2 ?b [0..<9]")
    from checkRowsH_step [OF pr c] have s3: "step (length h) ?b ?h2 h3" .
    with t2 have t3: "take (length h) h3 = h" by (simp add: step_def)
    obtain r4 h4 where sb: "solveBoardH fuel h3 ?b = (r4, h4)" by (cases "solveBoardH fuel h3 ?b")
    from search_step(1) [OF step_owned [OF pr s3] sb] t3 have t4: "take (length h) h4 = h"
      by (simp add: step_def)
    from a m Inr c sb t3 t4 show ?thesis
      by (cases s; cases r4) (simp_all add: solveSudokuH_def Let_def)
  qed
qed

section \<open>The store model computes what the value model computes\<close>

lemma prim_num [simp]: "prim x = JNum v \<longleftrightarrow> x = HNum v"
  by (cases x) auto

lemma prim_hole [simp]: "prim x = JHole \<longleftrightarrow> x = HHole"
  by (cases x) auto

lemma prim_elemH:
  "a < length h \<Longrightarrow>
   prim (elemH h a c) =
     (if c < length (h ! a) \<and> prim (h ! a ! c) \<noteq> JHole then prim (h ! a ! c) else JUndefined)"
  by (simp add: elemH_def)

lemma getCell_boardAt:
  assumes "wfBoard h board"
  shows "getCell (boardAt h board) r c = map_sum id prim (getCellH h board r c)"
proof (cases "r < length (h ! board)")
  case False
  with assms show ?thesis
    by (simp add: getCell_def getCellH_def boardAt_def elemH_def wfBoard_def)
next
  case True
  with assms have w: "wfRow h board r (h ! board ! r)" and b: "board < length h"
    by (simp_all add: wfBoard_def)
  show ?thesis
  proof (cases "h ! board ! r")
    case (HRef a)
    with w have "a < length h" by simp
    with True b HRef show ?thesis
      by (simp add: getCell_def getCellH_def boardAt_def elemH_def)
  qed (use w True b in \<open>simp_all add: getCell_def getCellH_def boardAt_def elemH_def\<close>)
qed

lemma findCell_boardAt:
  "wfBoard h board \<Longrightarrow> findCell (boardAt h board) v cells = findCellH h board v cells"
proof (induction cells)
  case Nil
  show ?case by simp
next
  case (Cons p cells)
  obtain r c where p: "p = (r, c)" by (cases p)
  from Cons show ?case
    by (cases "getCellH h board r c") (simp_all add: p getCell_boardAt)
qed

lemma isValid_boardAt:
  "wfBoard h board \<Longrightarrow> isValid (boardAt h board) row col v = isValidH h board row col v"
  by (simp add: isValid_def isValidH_def findCell_boardAt)

lemma isArray9_boardAt:
  assumes "wfBoard h board"
  shows "isArray9 (boardAt h board) row = isArray9H h board row"
proof (cases "row < length (h ! board)")
  case False
  with assms show ?thesis
    by (simp add: isArray9_def isArray9H_def boardAt_def elemH_def wfBoard_def)
next
  case True
  with assms have w: "wfRow h board row (h ! board ! row)" and b: "board < length h"
    by (simp_all add: wfBoard_def)
  show ?thesis
  proof (cases "h ! board ! row")
    case (HRef a)
    with w have "a < length h" by simp
    with True b HRef show ?thesis
      by (simp add: isArray9_def isArray9H_def boardAt_def elemH_def)
  qed (use True b in \<open>simp_all add: isArray9_def isArray9H_def boardAt_def elemH_def\<close>)
qed

lemma setCell_boardAt:
  assumes w: "wfBoard h board"
  shows "setCell (boardAt h board) r c (JNum v) =
           map_sum id (\<lambda>h'. boardAt h' board) (setCellH h board r c (HNum v))"
    and "setCellH h board r c (HNum v) = Inr h' \<Longrightarrow> wfBoard h' board"
proof -
  from w have b: "board < length h" by (simp add: wfBoard_def)
  have both: "setCell (boardAt h board) r c (JNum v) =
           map_sum id (\<lambda>h'. boardAt h' board) (setCellH h board r c (HNum v)) \<and>
      (\<forall>h'. setCellH h board r c (HNum v) = Inr h' \<longrightarrow> wfBoard h' board)"
  proof (cases "r < length (h ! board)")
    case False
    then show ?thesis
      by (simp add: setCell_def setCellH_def boardAt_def elemH_def)
  next
    case True
    with w have wr: "wfRow h board r (h ! board ! r)" by (simp add: wfBoard_def)
    show ?thesis
    proof (cases "h ! board ! r")
      case (HRef a)
      with wr have a: "a < length h" "a \<noteq> board"
        and uniq: "\<forall>j<length (h ! board). h ! board ! j = HRef a \<longrightarrow> j = r"
        by simp_all
      let ?new = "if c < length (h ! a) then (h ! a)[c := HNum v]
                  else h ! a @ replicate (c - length (h ! a)) HHole @ [HNum v]"
      let ?h' = "h[a := ?new]"
      from True b HRef a have sc: "setCellH h board r c (HNum v) = Inr ?h'"
        by (simp add: setCellH_def elemH_def)
      have hb: "?h' ! board = h ! board" using a by simp
      have rows: "rowAt ?h' (h ! board ! j) =
        (if j = r then RArr (map prim ?new) else rowAt h (h ! board ! j))"
        if j: "j < length (h ! board)" for j
      proof (cases "j = r")
        case True
        with HRef a show ?thesis by simp
      next
        case False
        with uniq j have "h ! board ! j \<noteq> HRef a" by blast
        with False show ?thesis by (cases "h ! board ! j") simp_all
      qed
      have "boardAt ?h' board = (boardAt h board)[r := RArr (map prim ?new)]"
        unfolding boardAt_def hb using rows
        by (intro nth_equalityI) (simp_all add: nth_list_update)
      moreover have "rowSet (boardAt h board ! r) c (JNum v) = Inr (RArr (map prim ?new))"
        using True HRef by (simp add: boardAt_def map_update)
      ultimately have 1: "setCell (boardAt h board) r c (JNum v) = Inr (boardAt ?h' board)"
        using True by (simp add: setCell_def boardAt_def)
      have "wfRow ?h' board i (h ! board ! i)" if i: "i < length (h ! board)" for i
      proof -
        from w i have "wfRow h board i (h ! board ! i)" by (simp add: wfBoard_def)
        then show ?thesis
          using hb by (cases "h ! board ! i") simp_all
      qed
      with b hb have 2: "wfBoard ?h' board" by (simp add: wfBoard_def)
      from 1 2 sc show ?thesis by simp
    qed (use wr True b in \<open>simp_all add: setCell_def setCellH_def boardAt_def elemH_def\<close>)
  qed
  from both show "setCell (boardAt h board) r c (JNum v) =
           map_sum id (\<lambda>h'. boardAt h' board) (setCellH h board r c (HNum v))" by blast
  from both show "setCellH h board r c (HNum v) = Inr h' \<Longrightarrow> wfBoard h' board" by blast
qed

lemma checkCell_boardAt:
  assumes w: "wfBoard h board"
  shows "sameFlow board (checkCellH h board row col) (checkCell (boardAt h board) row col)"
proof (cases "getCellH h board row col")
  case (Inl e)
  then show ?thesis
    by (simp add: sameFlow_def checkCellH_def checkCell_def getCell_boardAt [OF w])
next
  case (Inr x)
  then have g: "getCell (boardAt h board) row col = Inr (prim x)"
    by (simp add: getCell_boardAt [OF w])
  show ?thesis
  proof (cases "\<exists>q. x = HNum q")
    case False
    then have "\<forall>q. prim x \<noteq> JNum q" by simp
    with False Inr g show ?thesis
      by (cases x) (simp_all add: sameFlow_def checkCellH_def checkCell_def)
  next
    case True
    then obtain q where x: "x = HNum q" by blast
    show ?thesis
    proof (cases "q < 0 \<or> q > 9 \<or> q = 0")
      case True
      with Inr g x w show ?thesis
        by (auto simp: sameFlow_def checkCellH_def checkCell_def)
    next
      case False
      then have q: "\<not> (q < 0 \<or> q > 9)" "q \<noteq> 0" by auto
      note s0 = setCell_boardAt(1) [OF w, of row col 0]
      show ?thesis
      proof (cases "setCellH h board row col (HNum 0)")
        case (Inl e)
        with s0 have "setCell (boardAt h board) row col (JNum 0) = Inl e" by simp
        with Inl Inr g x q show ?thesis
          by (simp add: sameFlow_def checkCellH_def checkCell_def)
      next
        case h1: (Inr h1)
        with s0 have p1: "setCell (boardAt h board) row col (JNum 0) = Inr (boardAt h1 board)"
          by simp
        from setCell_boardAt(2) [OF w h1] have w1: "wfBoard h1 board" .
        note iv = isValid_boardAt [OF w1, of row col q]
        show ?thesis
        proof (cases "isValidH h1 board row col q")
          case (Inl e)
          with iv have "isValid (boardAt h1 board) row col q = Inl e" by simp
          with Inl h1 p1 Inr g x q show ?thesis
            by (simp add: sameFlow_def checkCellH_def checkCell_def)
        next
          case ok: (Inr ok)
          with iv have pv: "isValid (boardAt h1 board) row col q = Inr ok" by simp
          show ?thesis
          proof (cases ok)
            case False
            with ok pv h1 p1 Inr g x q show ?thesis
              by (simp add: sameFlow_def checkCellH_def checkCell_def)
          next
            case True
            note s2 = setCell_boardAt(1) [OF w1, of row col q]
            show ?thesis
            proof (cases "setCellH h1 board row col (HNum q)")
              case (Inl e)
              with s2 have "setCell (boardAt h1 board) row col (JNum q) = Inl e" by simp
              with Inl True ok pv h1 p1 Inr g x q show ?thesis
                by (simp add: sameFlow_def checkCellH_def checkCell_def)
            next
              case h2: (Inr h2)
              with s2 have p2: "setCell (boardAt h1 board) row col (JNum q) = Inr (boardAt h2 board)"
                by simp
              from setCell_boardAt(2) [OF w1 h2] have w2: "wfBoard h2 board" .
              from h2 p2 w2 True ok pv h1 p1 Inr g x q show ?thesis
                by (simp add: sameFlow_def checkCellH_def checkCell_def)
            qed
          qed
        qed
      qed
    qed
  qed
qed

lemma checkCols_boardAt:
  "wfBoard h board \<Longrightarrow>
   sameFlow board (checkColsH h board row cols) (checkCols (boardAt h board) row cols)"
proof (induction cols arbitrary: h)
  case Nil
  then show ?case by (simp add: sameFlow_def)
next
  case (Cons col cols)
  obtain s h1 where c: "checkCellH h board row col = (s, h1)"
    by (cases "checkCellH h board row col")
  from checkCell_boardAt [OF Cons(2), of row col] c
  have f: "sameFlow board (s, h1) (checkCell (boardAt h board) row col)" by simp
  show ?case
  proof (cases s)
    case SNext
    with f have p: "checkCell (boardAt h board) row col = Next (boardAt h1 board)"
      and w1: "wfBoard h1 board" by (simp_all add: sameFlow_def)
    from Cons(1) [OF w1] c SNext p show ?thesis by simp
  next
    case (SThrow e)
    with f have "checkCell (boardAt h board) row col = Throw e" by (simp add: sameFlow_def)
    with c SThrow show ?thesis by (simp add: sameFlow_def)
  next
    case (SReturn x)
    with f have "checkCell (boardAt h board) row col = Return x" by (simp add: sameFlow_def)
    with c SReturn show ?thesis by (simp add: sameFlow_def)
  qed
qed

lemma checkRows_boardAt:
  "wfBoard h board \<Longrightarrow>
   sameFlow board (checkRowsH h board rows) (checkRows (boardAt h board) rows)"
proof (induction rows arbitrary: h)
  case Nil
  then show ?case by (simp add: sameFlow_def)
next
  case (Cons row rows)
  note a = isArray9_boardAt [OF Cons(2), of row]
  show ?case
  proof (cases "isArray9H h board row")
    case False
    with a show ?thesis by (simp add: sameFlow_def)
  next
    case True
    obtain s h1 where c: "checkColsH h board row [0..<9] = (s, h1)"
      by (cases "checkColsH h board row [0..<9]")
    from checkCols_boardAt [OF Cons(2), of row "[0..<9]"] c
    have f: "sameFlow board (s, h1) (checkCols (boardAt h board) row [0..<9])" by simp
    show ?thesis
    proof (cases s)
      case SNext
      with f have p: "checkCols (boardAt h board) row [0..<9] = Next (boardAt h1 board)"
        and w1: "wfBoard h1 board" by (simp_all add: sameFlow_def)
      from Cons(1) [OF w1] c SNext p True a show ?thesis by simp
    next
      case (SThrow e)
      with f have "checkCols (boardAt h board) row [0..<9] = Throw e" by (simp add: sameFlow_def)
      with c SThrow True a show ?thesis by (simp add: sameFlow_def)
    next
      case (SReturn x)
      with f have "checkCols (boardAt h board) row [0..<9] = Return x" by (simp add: sameFlow_def)
      with c SReturn True a show ?thesis by (simp add: sameFlow_def)
    qed
  qed
qed

lemma refinesS_I:
  assumes "\<And>h board fuel. wfBoard h board \<Longrightarrow> boardAt h board = b \<Longrightarrow> n \<le> fuel \<Longrightarrow>
    simSearch board (solveBoardH fuel h board) (solveBoard b)"
  shows "refinesS b"
  unfolding refinesS_def using assms by blast

lemma refinesT_I:
  assumes "\<And>h board fuel. wfBoard h board \<Longrightarrow> boardAt h board = b \<Longrightarrow> n \<le> fuel \<Longrightarrow>
    simSearch board (tryValuesH fuel h board row col v) (tryValues b row col v)"
  shows "refinesT b row col v"
  unfolding refinesT_def using assms by blast

lemma search_refines:
  shows "refinesS b" and "refinesT b' row col v"
proof (induction b and b' row col v rule: solveBoard_tryValues.induct)
  case (1 b)
  show ?case
  proof (cases "findCell b 0 allCells")
    case (Inl e)
    show ?thesis
    proof (rule refinesS_I [where n = 1])
      fix h :: heap and board :: addr and fuel :: nat
      assume w: "wfBoard h board" and a: "boardAt h board = b" and f: "1 \<le> fuel"
      from f obtain k where k: "fuel = Suc k" by (cases fuel) auto
      from findCell_boardAt [OF w, of 0 allCells] a Inl
      have "findCellH h board 0 allCells = Inl e" by simp
      with Inl show "simSearch board (solveBoardH fuel h board) (solveBoard b)"
        by (simp add: k simSearch_def solveBoard.simps)
    qed
  next
    case (Inr found)
    show ?thesis
    proof (cases found)
      case None
      show ?thesis
      proof (rule refinesS_I [where n = 1])
        fix h :: heap and board :: addr and fuel :: nat
        assume w: "wfBoard h board" and a: "boardAt h board = b" and f: "1 \<le> fuel"
        from f obtain k where k: "fuel = Suc k" by (cases fuel) auto
        from findCell_boardAt [OF w, of 0 allCells] a Inr None
        have "findCellH h board 0 allCells = Inr None" by simp
        with Inr None w a show "simSearch board (solveBoardH fuel h board) (solveBoard b)"
          by (simp add: k simSearch_def solveBoard.simps)
      qed
    next
      case (Some p)
      obtain row col where p: "p = (row, col)" by (cases p)
      from "1.IH" [OF Inr Some p [symmetric]] obtain n
        where n: "\<And>h board fuel. wfBoard h board \<Longrightarrow> boardAt h board = b \<Longrightarrow> n \<le> fuel \<Longrightarrow>
          simSearch board (tryValuesH fuel h board row col 1) (tryValues b row col 1)"
        unfolding refinesT_def by blast
      show ?thesis
      proof (rule refinesS_I [where n = "Suc n"])
        fix h :: heap and board :: addr and fuel :: nat
        assume w: "wfBoard h board" and a: "boardAt h board = b" and f: "Suc n \<le> fuel"
        from f obtain k where k: "fuel = Suc k" "n \<le> k" by (cases fuel) auto
        from findCell_boardAt [OF w, of 0 allCells] a Inr Some p
        have "findCellH h board 0 allCells = Inr (Some (row, col))" by simp
        with Inr Some p n [OF w a k(2)]
        show "simSearch board (solveBoardH fuel h board) (solveBoard b)"
          by (simp add: k solveBoard.simps)
      qed
    qed
  qed
next
  case (2 b row col v)
  show ?case
  proof (cases "v \<le> 9")
    case False
    show ?thesis
    proof (rule refinesT_I [where n = 0])
      fix h :: heap and board :: addr and fuel :: nat
      assume w: "wfBoard h board" and a: "boardAt h board = b"
      from False have "tryValues b row col v = Inr (False, b)"
        by (subst tryValues.simps) simp
      with False w a show "simSearch board (tryValuesH fuel h board row col v) (tryValues b row col v)"
        by (simp add: simSearch_def)
    qed
  next
    case v9: True
    show ?thesis
    proof (cases "isValid b row col (of_nat v)")
      case (Inl e)
      show ?thesis
      proof (rule refinesT_I [where n = 0])
        fix h :: heap and board :: addr and fuel :: nat
        assume w: "wfBoard h board" and a: "boardAt h board = b"
        from v9 Inl have "tryValues b row col v = Inl e"
          by (subst tryValues.simps) simp
        moreover from isValid_boardAt [OF w, of row col "of_nat v"] a Inl
        have "isValidH h board row col (of_nat v) = Inl e" by simp
        ultimately show "simSearch board (tryValuesH fuel h board row col v) (tryValues b row col v)"
          using v9 by (simp add: simSearch_def)
      qed
    next
      case ok: (Inr ok)
      show ?thesis
      proof (cases ok)
        case False
        from "2.IH"(3) [OF v9 ok False] obtain n
          where n: "\<And>h board fuel. wfBoard h board \<Longrightarrow> boardAt h board = b \<Longrightarrow> n \<le> fuel \<Longrightarrow>
            simSearch board (tryValuesH fuel h board row col (v + 1)) (tryValues b row col (v + 1))"
          unfolding refinesT_def by blast
        show ?thesis
        proof (rule refinesT_I [where n = n])
          fix h :: heap and board :: addr and fuel :: nat
          assume w: "wfBoard h board" and a: "boardAt h board = b" and f: "n \<le> fuel"
          from v9 ok False have "tryValues b row col v = tryValues b row col (v + 1)"
            by (subst tryValues.simps) simp
          moreover from isValid_boardAt [OF w, of row col "of_nat v"] a ok False
          have "isValidH h board row col (of_nat v) = Inr False" by simp
          with v9 have "tryValuesH fuel h board row col v = tryValuesH fuel h board row col (v + 1)"
            by simp
          ultimately show "simSearch board (tryValuesH fuel h board row col v) (tryValues b row col v)"
            using n [OF w a f] by simp
        qed
      next
        case True
        show ?thesis
        proof (cases "setCell b row col (JNum (of_nat v))")
          case (Inl e)
          show ?thesis
          proof (rule refinesT_I [where n = 0])
            fix h :: heap and board :: addr and fuel :: nat
            assume w: "wfBoard h board" and a: "boardAt h board = b"
            from v9 ok True Inl have "tryValues b row col v = Inl e"
              by (subst tryValues.simps) simp
            moreover from isValid_boardAt [OF w, of row col "of_nat v"] a ok True
            have "isValidH h board row col (of_nat v) = Inr True" by simp
            moreover from setCell_boardAt(1) [OF w, of row col "of_nat v"] a Inl
            have "setCellH h board row col (HNum (of_nat v)) = Inl e"
              by (cases "setCellH h board row col (HNum (of_nat v))") simp_all
            ultimately show "simSearch board (tryValuesH fuel h board row col v) (tryValues b row col v)"
              using v9 by (simp add: simSearch_def)
          qed
        next
          case b1: (Inr b1)
          from "2.IH"(1) [OF v9 ok True b1] obtain n1
            where n1: "\<And>h board fuel. wfBoard h board \<Longrightarrow> boardAt h board = b1 \<Longrightarrow> n1 \<le> fuel \<Longrightarrow>
              simSearch board (solveBoardH fuel h board) (solveBoard b1)"
            unfolding refinesS_def by blast
          have pure: "tryValues b row col v =
            (case solveBoard b1 of
               Inl e \<Rightarrow> Inl e
             | Inr (solved, b2) \<Rightarrow>
                 if solved then Inr (True, b2)
                 else (case setCell b2 row col (JNum 0) of
                         Inl e \<Rightarrow> Inl e
                       | Inr b3 \<Rightarrow> tryValues b3 row col (v + 1)))"
            using v9 ok True b1 by (subst tryValues.simps) simp
          have store: "tryValuesH fuel h board row col v =
            (case solveBoardH fuel h1 board of
               (r, h2) \<Rightarrow>
                 if r = Done False then
                   (case setCellH h2 board row col (HNum 0) of
                      Inl e \<Rightarrow> (Thrown e, h2)
                    | Inr h3 \<Rightarrow> tryValuesH fuel h3 board row col (v + 1))
                 else (r, h2))"
            if "wfBoard h board" "boardAt h board = b"
              "setCellH h board row col (HNum (of_nat v)) = Inr h1" for h board fuel h1
          proof -
            from isValid_boardAt [OF that(1), of row col "of_nat v"] that(2) ok True
            have "isValidH h board row col (of_nat v) = Inr True" by simp
            with v9 that(3) show ?thesis by simp
          qed
          have first: "\<exists>h1. setCellH h board row col (HNum (of_nat v)) = Inr h1 \<and>
              boardAt h1 board = b1 \<and> wfBoard h1 board"
            if "wfBoard h board" "boardAt h board = b" for h board
          proof (cases "setCellH h board row col (HNum (of_nat v))")
            case (Inl e)
            with setCell_boardAt(1) [OF that(1), of row col "of_nat v"] that(2) b1
            show ?thesis by simp
          next
            case (Inr h1)
            with setCell_boardAt(1) [OF that(1), of row col "of_nat v"] that(2) b1
              setCell_boardAt(2) [OF that(1) Inr]
            show ?thesis by simp
          qed
          show ?thesis
          proof (cases "solveBoard b1")
            case (Inl e)
            show ?thesis
            proof (rule refinesT_I [where n = n1])
              fix h :: heap and board :: addr and fuel :: nat
              assume w: "wfBoard h board" and a: "boardAt h board = b" and f: "n1 \<le> fuel"
              from first [OF w a] obtain h1 where h1: "setCellH h board row col (HNum (of_nat v)) = Inr h1"
                "boardAt h1 board = b1" "wfBoard h1 board" by blast
              obtain r h2 where s: "solveBoardH fuel h1 board = (r, h2)"
                by (cases "solveBoardH fuel h1 board")
              from n1 [OF h1(3,2) f] Inl s have "r = Thrown e" by (simp add: simSearch_def)
              with store [OF w a h1(1), of fuel] s pure Inl
              show "simSearch board (tryValuesH fuel h board row col v) (tryValues b row col v)"
                by (simp add: simSearch_def)
            qed
          next
            case (Inr res)
            obtain solved b2 where res: "res = (solved, b2)" by (cases res)
            show ?thesis
            proof (cases solved)
              case True
              show ?thesis
              proof (rule refinesT_I [where n = n1])
                fix h :: heap and board :: addr and fuel :: nat
                assume w: "wfBoard h board" and a: "boardAt h board = b" and f: "n1 \<le> fuel"
                from first [OF w a] obtain h1 where h1: "setCellH h board row col (HNum (of_nat v)) = Inr h1"
                  "boardAt h1 board = b1" "wfBoard h1 board" by blast
                obtain r h2 where s: "solveBoardH fuel h1 board = (r, h2)"
                  by (cases "solveBoardH fuel h1 board")
                from n1 [OF h1(3,2) f] Inr res True s
                have "r = Done True" "boardAt h2 board = b2" "wfBoard h2 board"
                  by (simp_all add: simSearch_def)
                with store [OF w a h1(1), of fuel] s pure Inr res True
                show "simSearch board (tryValuesH fuel h board row col v) (tryValues b row col v)"
                  by (simp add: simSearch_def)
              qed
            next
              case False
              show ?thesis
              proof (cases "setCell b2 row col (JNum 0)")
                case (Inl e)
                show ?thesis
                proof (rule refinesT_I [where n = n1])
                  fix h :: heap and board :: addr and fuel :: nat
                  assume w: "wfBoard h board" and a: "boardAt h board = b" and f: "n1 \<le> fuel"
                  from first [OF w a] obtain h1 where h1: "setCellH h board row col (HNum (of_nat v)) = Inr h1"
                    "boardAt h1 board = b1" "wfBoard h1 board" by blast
                  obtain r h2 where s: "solveBoardH fuel h1 board = (r, h2)"
                    by (cases "solveBoardH fuel h1 board")
                  from n1 [OF h1(3,2) f] Inr res False s
                  have r: "r = Done False" "boardAt h2 board = b2" "wfBoard h2 board"
                    by (simp_all add: simSearch_def)
                  from setCell_boardAt(1) [OF r(3), of row col 0] r(2) Inl
                  have "setCellH h2 board row col (HNum 0) = Inl e"
                    by (cases "setCellH h2 board row col (HNum 0)") simp_all
                  with store [OF w a h1(1), of fuel] s r pure Inr res False Inl
                  show "simSearch board (tryValuesH fuel h board row col v) (tryValues b row col v)"
                    by (simp add: simSearch_def)
                qed
              next
                case b3: (Inr b3)
                from "2.IH"(2) [OF v9 ok True b1 Inr res [symmetric] False b3] obtain n2
                  where n2: "\<And>h board fuel. wfBoard h board \<Longrightarrow> boardAt h board = b3 \<Longrightarrow> n2 \<le> fuel \<Longrightarrow>
                    simSearch board (tryValuesH fuel h board row col (v + 1))
                      (tryValues b3 row col (v + 1))"
                  unfolding refinesT_def by blast
                show ?thesis
                proof (rule refinesT_I [where n = "max n1 n2"])
                  fix h :: heap and board :: addr and fuel :: nat
                  assume w: "wfBoard h board" and a: "boardAt h board = b" and f: "max n1 n2 \<le> fuel"
                  then have f1: "n1 \<le> fuel" and f2: "n2 \<le> fuel" by simp_all
                  from first [OF w a] obtain h1 where h1: "setCellH h board row col (HNum (of_nat v)) = Inr h1"
                    "boardAt h1 board = b1" "wfBoard h1 board" by blast
                  obtain r h2 where s: "solveBoardH fuel h1 board = (r, h2)"
                    by (cases "solveBoardH fuel h1 board")
                  from n1 [OF h1(3,2) f1] Inr res False s
                  have r: "r = Done False" "boardAt h2 board = b2" "wfBoard h2 board"
                    by (simp_all add: simSearch_def)
                  from setCell_boardAt(1) [OF r(3), of row col 0] r(2) b3
                  obtain h3 where h3: "setCellH h2 board row col (HNum 0) = Inr h3"
                    "boardAt h3 board = b3"
                    by (cases "setCellH h2 board row col (HNum 0)") simp_all
                  from setCell_boardAt(2) [OF r(3) h3(1)] have w3: "wfBoard h3 board" .
                  from store [OF w a h1(1), of fuel] s r h3
                  have "tryValuesH fuel h board row col v = tryValuesH fuel h3 board row col (v + 1)"
                    by simp
                  moreover from pure Inr res False b3
                  have "tryValues b row col v = tryValues b3 row col (v + 1)" by simp
                  ultimately
                  show "simSearch board (tryValuesH fuel h board row col v) (tryValues b row col v)"
                    using n2 [OF w3 h3(2) f2] by simp
                qed
              qed
            qed
          qed
        qed
      qed
    qed
  qed
qed

lemma fresh_mono: "fresh lo ys \<Longrightarrow> lo' \<le> lo \<Longrightarrow> fresh lo' ys"
proof (induction ys arbitrary: lo lo')
  case Nil
  show ?case by simp
next
  case (Cons y ys)
  then show ?case by (cases y) auto
qed

lemma fresh_nth: "fresh lo ys \<Longrightarrow> i < length ys \<Longrightarrow> ys ! i = HRef a \<Longrightarrow> lo \<le> a"
proof (induction ys arbitrary: lo i)
  case Nil
  then show ?case by simp
next
  case (Cons y ys)
  show ?case
  proof (cases i)
    case 0
    with Cons(2,4) show ?thesis by simp
  next
    case (Suc k)
    with Cons(3,4) have k: "k < length ys" "ys ! k = HRef a" by simp_all
    from Cons(2) obtain lo1 where "fresh lo1 ys" "lo \<le> lo1"
      by (cases y) auto
    with Cons(1) [OF _ k] show ?thesis by fastforce
  qed
qed

lemma fresh_shape:
  "fresh lo ys \<Longrightarrow> i < length ys \<Longrightarrow>
   (\<exists>a. ys ! i = HRef a) \<or> (\<exists>s. ys ! i = HStr s) \<or> ys ! i = HHole"
proof (induction ys arbitrary: lo i)
  case Nil
  then show ?case by simp
next
  case (Cons y ys)
  show ?case
  proof (cases i)
    case 0
    with Cons(2) show ?thesis by (cases y) simp_all
  next
    case (Suc k)
    from Cons(2) obtain lo1 where "fresh lo1 ys" by (cases y) auto
    from Cons(1) [OF this, of k] Cons(3) Suc show ?thesis by simp
  qed
qed

lemma fresh_unique:
  "fresh lo ys \<Longrightarrow> i < length ys \<Longrightarrow> j < length ys \<Longrightarrow> ys ! i = HRef a \<Longrightarrow> ys ! j = HRef a \<Longrightarrow>
   i = j"
proof (induction ys arbitrary: lo i j)
  case Nil
  then show ?case by simp
next
  case (Cons y ys)
  have tail: False
    if "y = HRef a" "k < length ys" "ys ! k = HRef a" for k
  proof -
    from Cons(2) that(1) have "fresh (Suc a) ys" by simp
    from fresh_nth [OF this that(2,3)] show False by simp
  qed
  from Cons(2) obtain lo1 where f1: "fresh lo1 ys" by (cases y) auto
  show ?case
  proof (cases i)
    case i0: 0
    show ?thesis
    proof (cases j)
      case 0
      with i0 show ?thesis by simp
    next
      case (Suc k)
      with i0 Cons(4,5,6) tail [of k] show ?thesis by simp
    qed
  next
    case (Suc k)
    show ?thesis
    proof (cases j)
      case 0
      with Suc Cons(3,5,6) tail [of k] show ?thesis by simp
    next
      case j: (Suc l)
      with Suc Cons(3,4,5,6) Cons(1) [OF f1, of k l] show ?thesis by simp
    qed
  qed
qed

lemma wfBoard_fresh:
  assumes f: "fresh lo ys" and below: "\<forall>a. HRef a \<in> set ys \<longrightarrow> a < length h1"
  shows "wfBoard (h1 @ [ys]) (length h1)"
  unfolding wfBoard_def
proof (intro conjI allI impI)
  show "length h1 < length (h1 @ [ys])" by simp
next
  fix i assume "i < length ((h1 @ [ys]) ! length h1)"
  then have i: "i < length ys" by simp
  from fresh_shape [OF f i] show "wfRow (h1 @ [ys]) (length h1) i ((h1 @ [ys]) ! length h1 ! i)"
  proof (elim disjE exE)
    fix a assume a: "ys ! i = HRef a"
    with i have "HRef a \<in> set ys" by (metis nth_mem)
    with below have "a < length h1" by blast
    moreover have "j = i" if "j < length ys" "ys ! j = HRef a" for j
      using fresh_unique [OF f that(1) i that(2) a] .
    ultimately show ?thesis using a by simp
  qed simp_all
qed

lemma boardAt_fresh:
  assumes "\<forall>a. HRef a \<in> set ys \<longrightarrow> a < length h1"
  shows "boardAt (h1 @ [ys]) (length h1) = map (rowAt h1) ys"
proof -
  have "rowAt (h1 @ [ys]) y = rowAt h1 y" if "y \<in> set ys" for y
    by (cases y) (use that assms in \<open>auto simp: nth_append\<close>)
  then show ?thesis by (simp add: boardAt_def)
qed

lemma mapSliceH_refines:
  assumes "\<forall>a. HRef a \<in> set xs \<longrightarrow> a < length h0" and "take (length h0) h = h0"
    and "mapSliceH h xs = (r, h')"
  shows "case r of
           Inl e \<Rightarrow> mapSlice (map (absElem h0) xs) = Inl e
         | Inr ys \<Rightarrow> mapSlice (map (absElem h0) xs) = Inr (map (rowAt h') ys) \<and> fresh (length h) ys"
  using assms
proof (induction xs arbitrary: h r h')
  case Nil
  then show ?case by auto
next
  case (Cons x xs)
  from Cons(2) have below: "\<forall>a. HRef a \<in> set xs \<longrightarrow> a < length h0" by simp
  have keep: ?case
    if m: "mapSliceH h xs = (r0, h')"
      and r: "r = (case r0 of Inl e \<Rightarrow> Inl e | Inr ys \<Rightarrow> Inr (x # ys))"
      and x: "mapSlice (absElem h0 x # map (absElem h0) xs) =
        (case mapSlice (map (absElem h0) xs) of Inl e \<Rightarrow> Inl e | Inr b \<Rightarrow> Inr (rowAt h' x # b))"
      and fx: "\<And>ys. fresh (length h) (x # ys) = fresh (length h) ys" for r0
    using Cons(1) [OF below Cons(3) m] r x fx by (cases r0) simp_all
  show ?case
  proof (cases x)
    case (HRef a)
    with Cons(2) have a0: "a < length h0" by simp
    from Cons(3) have "length (take (length h0) h) = length h0" by (simp only:)
    then have len: "length h0 \<le> length h" by simp
    from Cons(3) a0 have ha: "h ! a = h0 ! a" by (metis nth_take)
    from a0 len have ah: "a < length h" by simp
    obtain r0 h1 where m: "mapSliceH (h @ [h ! a]) xs = (r0, h1)"
      by (cases "mapSliceH (h @ [h ! a]) xs")
    from Cons(3) len have t: "take (length h0) (h @ [h ! a]) = h0" by simp
    note ih = Cons(1) [OF below t m]
    from mapSliceH_extends [OF m] have "take (Suc (length h)) h1 = h @ [h ! a]"
      "Suc (length h) \<le> length h1" by simp_all
    then have "h1 ! length h = (h @ [h ! a]) ! length h"
      by (metis lessI nth_take)
    then have copy: "h1 ! length h = h0 ! a" using ha by simp
    from Cons(4) HRef ah m have r: "h' = h1"
      "r = (case r0 of Inl e \<Rightarrow> Inl e | Inr ys \<Rightarrow> Inr (HRef (length h) # ys))"
      by (auto split: sum.splits)
    show ?thesis
    proof (cases r0)
      case (Inl e)
      with ih r HRef show ?thesis by simp
    next
      case (Inr ys)
      with ih r HRef copy show ?thesis by simp
    qed
  next
    case (HStr s)
    obtain r0 h1 where m: "mapSliceH h xs = (r0, h1)" by (cases "mapSliceH h xs")
    with Cons(4) HStr have "h' = h1" "r = (case r0 of Inl e \<Rightarrow> Inl e | Inr ys \<Rightarrow> Inr (x # ys))"
      by (auto split: sum.splits)
    with m HStr show ?thesis by (intro keep [of r0]) (simp_all split: sum.splits)
  next
    case HHole
    obtain r0 h1 where m: "mapSliceH h xs = (r0, h1)" by (cases "mapSliceH h xs")
    with Cons(4) HHole have "h' = h1" "r = (case r0 of Inl e \<Rightarrow> Inl e | Inr ys \<Rightarrow> Inr (x # ys))"
      by (auto split: sum.splits)
    with m HHole show ?thesis by (intro keep [of r0]) (simp_all split: sum.splits)
  qed (use Cons(4) in auto)
qed

lemma checkCell_Return: "checkCell b r c = Return x \<Longrightarrow> solution x = None"
  by (auto simp: checkCell_def rangeError_def conflictError_def failure_def
      split: sum.splits jsval.splits if_splits)

lemma checkCols_Return: "checkCols b r cols = Return x \<Longrightarrow> solution x = None"
proof (induction cols arbitrary: b)
  case Nil
  then show ?case by simp
next
  case (Cons c cols)
  then show ?case
    by (cases "checkCell b r c") (auto dest: checkCell_Return)
qed

lemma checkRows_Return: "checkRows b rows = Return x \<Longrightarrow> solution x = None"
proof (induction rows arbitrary: b)
  case Nil
  then show ?case by simp
next
  case (Cons r rows)
  show ?case
  proof (cases "isArray9 b r")
    case False
    with Cons(2) show ?thesis by (auto simp: rowError_def failure_def)
  next
    case True
    with Cons show ?thesis
      by (cases "checkCols b r [0..<9]") (auto dest: checkCols_Return)
  qed
qed

lemma absOutcome_failure:
  "solution r = None \<Longrightarrow> absOutcome h (Inr (hfailure r)) = Inr r"
  by (simp add: absOutcome_def hfailure_def)

lemma rowsError_failure: "solution rowsError = None" "solution unsolvableError = None"
  by (simp_all add: rowsError_def unsolvableError_def failure_def)

lemma prim_not_array: "\<forall>a. x \<noteq> HRef a \<Longrightarrow> \<forall>rs. prim x \<noteq> JArr rs"
  by (cases x) simp_all

lemma solveSudoku_not_array: "\<forall>rs. J \<noteq> JArr rs \<Longrightarrow> solveSudoku J = Inr rowsError"
  by (cases J) (simp_all add: solveSudoku_def)

lemma run_refines:
  assumes wf: "wfInput h rows"
    and search: "\<And>b h3 board. validated (absInput h rows) = Some b \<Longrightarrow> wfBoard h3 board \<Longrightarrow>
        boardAt h3 board = b \<Longrightarrow> simSearch board (solveBoardH fuel h3 board) (solveBoard b)"
  shows "\<exists>x h'. solveSudokuH fuel h rows = (Some x, h') \<and>
    absOutcome h' x = solveSudoku (absInput h rows)"
proof (cases "\<exists>a. rows = HRef a")
  case False
  then have n: "\<forall>a. rows \<noteq> HRef a" by blast
  then have "absInput h rows = prim rows" by (cases rows) simp_all
  with prim_not_array [OF n] have "solveSudoku (absInput h rows) = Inr rowsError"
    by (simp add: solveSudoku_not_array)
  moreover from n have "solveSudokuH fuel h rows = (Some (Inr (hfailure rowsError)), h)"
    by (cases rows) (simp_all add: solveSudokuH_def)
  ultimately show ?thesis
    by (simp add: absOutcome_failure rowsError_failure)
next
  case True
  then obtain a where rows: "rows = HRef a" by blast
  with wf have a: "a < length h" and refs: "list_all (refBelow (length h)) (h ! a)" by simp_all
  let ?J = "JArr (map (absElem h) (h ! a))"
  from rows have J: "absInput h rows = ?J" by simp
  show ?thesis
  proof (cases "length (h ! a) = 9")
    case False
    with rows a have "solveSudokuH fuel h rows = (Some (Inr (hfailure rowsError)), h)"
      by (simp add: solveSudokuH_def)
    moreover from False have "solveSudoku ?J = Inr rowsError"
      by (simp add: solveSudoku_def)
    ultimately show ?thesis
      unfolding J by (simp add: absOutcome_failure rowsError_failure)
  next
    case nine: True
    obtain r1 h1 where m: "mapSliceH h (h ! a) = (r1, h1)" by (cases "mapSliceH h (h ! a)")
    have below: "\<forall>a'. HRef a' \<in> set (h ! a) \<longrightarrow> a' < length h"
    proof (intro allI impI)
      fix a' assume "HRef a' \<in> set (h ! a)"
      with refs show "a' < length h" by (auto simp: list_all_iff)
    qed
    have tk: "take (length h) h = h" by simp
    note copyR = mapSliceH_refines [OF below tk m]
    note ext = mapSliceH_extends [OF m]
    show ?thesis
    proof (cases r1)
      case (Inl e)
      with copyR have "mapSlice (map (absElem h) (h ! a)) = Inl e" by simp
      with nine have "solveSudoku ?J = Inl e" by (simp add: solveSudoku_def)
      moreover from rows a nine m Inl have "solveSudokuH fuel h rows = (Some (Inl e), h1)"
        by (simp add: solveSudokuH_def)
      ultimately show ?thesis unfolding J by (simp add: absOutcome_def)
    next
      case (Inr ys)
      let ?bd = "length h1" and ?h2 = "h1 @ [ys]"
      let ?b0 = "map (rowAt h1) ys"
      from copyR Inr have ms: "mapSlice (map (absElem h) (h ! a)) = Inr ?b0"
        and fr: "fresh (length h) ys" by simp_all
      from ext Inr have up: "\<forall>a. HRef a \<in> set ys \<longrightarrow> a < length h1" by auto
      note w2 = wfBoard_fresh [OF fr up]
      note b2 = boardAt_fresh [OF up]
      obtain s h3 where c: "checkRowsH ?h2 ?bd [0..<9] = (s, h3)"
        by (cases "checkRowsH ?h2 ?bd [0..<9]")
      from checkRows_boardAt [OF w2, of "[0..<9]"] c b2
      have fl: "sameFlow ?bd (s, h3) (checkRows ?b0 [0..<9])" by simp
      have pureJ: "solveSudoku ?J =
        (case checkRows ?b0 [0..<9] of
           Throw e \<Rightarrow> Inl e
         | Return r \<Rightarrow> Inr r
         | Next b \<Rightarrow>
             (case solveBoard b of
                Inl e \<Rightarrow> Inl e
              | Inr (solved, b') \<Rightarrow>
                  if \<not> solved then Inr unsolvableError else Inr (success b')))"
        using nine ms by (simp add: solveSudoku_def)
      have storeJ: "solveSudokuH fuel h rows =
        (case s of
           SThrow e \<Rightarrow> (Some (Inl e), h3)
         | SReturn r \<Rightarrow> (Some (Inr (hfailure r)), h3)
         | SNext \<Rightarrow>
             (case solveBoardH fuel h3 ?bd of
                (OutOfFuel, h4) \<Rightarrow> (None, h4)
              | (Thrown e, h4) \<Rightarrow> (Some (Inl e), h4)
              | (Done solved, h4) \<Rightarrow>
                  if \<not> solved then (Some (Inr (hfailure unsolvableError)), h4)
                  else (Some (Inr \<lparr>hsolution = Some ?bd, herror = None\<rparr>), h4)))"
        using rows a nine m Inr c by (simp add: solveSudokuH_def Let_def)
      show ?thesis
      proof (cases s)
        case (SThrow e)
        with fl have "checkRows ?b0 [0..<9] = Throw e" by (simp add: sameFlow_def)
        with pureJ storeJ SThrow show ?thesis unfolding J by (simp add: absOutcome_def)
      next
        case (SReturn r)
        with fl have p: "checkRows ?b0 [0..<9] = Return r" by (simp add: sameFlow_def)
        from checkRows_Return [OF p] have "solution r = None" .
        with pureJ storeJ SReturn p show ?thesis unfolding J by (simp add: absOutcome_failure)
      next
        case SNext
        with fl have p: "checkRows ?b0 [0..<9] = Next (boardAt h3 ?bd)" and w3: "wfBoard h3 ?bd"
          by (simp_all add: sameFlow_def)
        let ?b = "boardAt h3 ?bd"
        from nine ms p have "validated (absInput h rows) = Some ?b"
          unfolding J by (simp add: validated_def)
        from search [OF this w3 refl]
        have sim: "simSearch ?bd (solveBoardH fuel h3 ?bd) (solveBoard ?b)" .
        obtain r4 h4 where sb: "solveBoardH fuel h3 ?bd = (r4, h4)"
          by (cases "solveBoardH fuel h3 ?bd")
        show ?thesis
        proof (cases "solveBoard ?b")
          case (Inl e)
          with sim sb have "r4 = Thrown e" by (simp add: simSearch_def)
          with pureJ storeJ SNext p sb Inl show ?thesis unfolding J by (simp add: absOutcome_def)
        next
          case (Inr res)
          obtain ok b' where res: "res = (ok, b')" by (cases res)
          with sim sb Inr have r4: "r4 = Done ok" "boardAt h4 ?bd = b'" by (simp_all add: simSearch_def)
          show ?thesis
          proof (cases ok)
            case False
            with pureJ storeJ SNext p sb Inr res r4 show ?thesis
              unfolding J by (simp add: absOutcome_failure rowsError_failure)
          next
            case True
            with pureJ storeJ SNext p sb Inr res r4 show ?thesis
              unfolding J by (simp add: absOutcome_def success_def)
          qed
        qed
      qed
    qed
  qed
qed

lemma solveSudokuH_refines:
  "\<exists>n. \<forall>h rows fuel. wfInput h rows \<and> absInput h rows = J \<and> n \<le> fuel \<longrightarrow>
     (\<exists>x h'. solveSudokuH fuel h rows = (Some x, h') \<and> absOutcome h' x = solveSudoku J)"
proof (cases "validated J")
  case None
  have "\<exists>x h'. solveSudokuH fuel h rows = (Some x, h') \<and> absOutcome h' x = solveSudoku J"
    if wf: "wfInput h rows" and J: "absInput h rows = J" for h rows fuel
  proof -
    have s: "simSearch board (solveBoardH fuel h3 board) (solveBoard b')"
      if "validated (absInput h rows) = Some b'" for b' h3 board
    proof -
      from that have "validated J = Some b'" unfolding J .
      with None show ?thesis by simp
    qed
    have "\<exists>x h'. solveSudokuH fuel h rows = (Some x, h') \<and>
      absOutcome h' x = solveSudoku (absInput h rows)"
      by (rule run_refines [OF wf s])
    then show ?thesis unfolding J .
  qed
  then show ?thesis by blast
next
  case (Some b)
  from search_refines(1) [of b] obtain n
    where n: "\<And>h board fuel. wfBoard h board \<Longrightarrow> boardAt h board = b \<Longrightarrow> n \<le> fuel \<Longrightarrow>
      simSearch board (solveBoardH fuel h board) (solveBoard b)"
    unfolding refinesS_def by blast
  have "\<exists>x h'. solveSudokuH fuel h rows = (Some x, h') \<and> absOutcome h' x = solveSudoku J"
    if wf: "wfInput h rows" and J: "absInput h rows = J" and f: "n \<le> fuel" for h rows fuel
  proof -
    have s: "simSearch board (solveBoardH fuel h3 board) (solveBoard b')"
      if v: "validated (absInput h rows) = Some b'" and w: "wfBoard h3 board"
        and e: "boardAt h3 board = b'" for b' h3 board
    proof -
      from v have "validated J = Some b'" unfolding J .
      with Some have "b = b'" by simp
      with e have "boardAt h3 board = b" by simp
      from n [OF w this f] \<open>b = b'\<close> show ?thesis by simp
    qed
    have "\<exists>x h'. solveSudokuH fuel h rows = (Some x, h') \<and>
      absOutcome h' x = solveSudoku (absInput h rows)"
      by (rule run_refines [OF wf s])
    then show ?thesis unfolding J .
  qed
  then show ?thesis by blast
qed

lemma wfInput_extends:
  assumes "wfInput h rows" and "take (length h) h' = h"
  shows "wfInput h' rows \<and> absInput h' rows = absInput h rows"
proof (cases "\<exists>a. rows = HRef a")
  case False
  then show ?thesis by (cases rows) simp_all
next
  case True
  then obtain a where rows: "rows = HRef a" by blast
  with assms(1) have a: "a < length h" and refs: "list_all (refBelow (length h)) (h ! a)"
    by simp_all
  from assms(2) have "length (take (length h) h') = length h" by (simp only:)
  then have len: "length h \<le> length h'" by simp
  have same: "h' ! i = h ! i" if "i < length h" for i
    using assms(2) that by (metis nth_take)
  have below: "refBelow (length h') x" if "refBelow (length h) x" for x
    using that len by (cases x) simp_all
  have el: "absElem h' x = absElem h x" if "refBelow (length h) x" for x
    using that same by (cases x) simp_all
  from refs below have "list_all (refBelow (length h')) (h ! a)"
    by (simp add: list_all_iff)
  moreover from refs el have "map (absElem h') (h ! a) = map (absElem h) (h ! a)"
    by (simp add: list_all_iff)
  ultimately show ?thesis
    using rows a len same [OF a] by simp
qed

text \<open>
  C9. On the explicit store, for every input, every outcome (a solution, one of the errors, an
  exception, or the search cut short) and every amount of fuel, \<open>solveSudoku\<close> leaves
  every array that existed before the call as it was, the caller's rows among them: the
  validation and the search write only to the copies made by \<open>row.slice()\<close>. And in a
  store where the references of the input point to allocated arrays, the call returns (enough
  fuel gives a result), its result is the one the value model \<open>solveSudoku\<close> computes
  from the contents of the input, and a second call on the same input, in the store the first
  call leaves, returns the same verdict: the same error, the same exception or a solution
  with the same contents.
\<close>
theorem input_untouched:
  "take (length h) (snd (solveSudokuH fuel h rows)) = h \<and>
   (wfInput h rows \<longrightarrow>
      (\<exists>n. \<forall>fuel1 fuel2. n \<le> fuel1 \<and> n \<le> fuel2 \<longrightarrow>
         (\<exists>x h1 y h2.
            solveSudokuH fuel1 h rows = (Some x, h1) \<and>
            solveSudokuH fuel2 h1 rows = (Some y, h2) \<and>
            absOutcome h1 x = solveSudoku (absInput h rows) \<and>
            absOutcome h2 y = absOutcome h1 x)))"
proof (intro conjI impI)
  show "take (length h) (snd (solveSudokuH fuel h rows)) = h"
    by (rule store_frame)
next
  assume wf: "wfInput h rows"
  from solveSudokuH_refines [of "absInput h rows"] obtain n
    where n: "\<And>h' rows' fuel. wfInput h' rows' \<Longrightarrow> absInput h' rows' = absInput h rows \<Longrightarrow>
      n \<le> fuel \<Longrightarrow>
      \<exists>x h''. solveSudokuH fuel h' rows' = (Some x, h'') \<and>
        absOutcome h'' x = solveSudoku (absInput h rows)"
    by blast
  show "\<exists>n. \<forall>fuel1 fuel2. n \<le> fuel1 \<and> n \<le> fuel2 \<longrightarrow>
         (\<exists>x h1 y h2.
            solveSudokuH fuel1 h rows = (Some x, h1) \<and>
            solveSudokuH fuel2 h1 rows = (Some y, h2) \<and>
            absOutcome h1 x = solveSudoku (absInput h rows) \<and>
            absOutcome h2 y = absOutcome h1 x)"
  proof (intro exI [of _ n] allI impI)
    fix fuel1 fuel2 :: nat
    assume f: "n \<le> fuel1 \<and> n \<le> fuel2"
    from n [OF wf refl, of fuel1] f obtain x h1
      where 1: "solveSudokuH fuel1 h rows = (Some x, h1)"
        "absOutcome h1 x = solveSudoku (absInput h rows)" by blast
    from store_frame [of h fuel1 rows] 1(1) have "take (length h) h1 = h" by simp
    from wfInput_extends [OF wf this] have w1: "wfInput h1 rows"
      and a1: "absInput h1 rows = absInput h rows" by simp_all
    from n [OF w1 a1, of fuel2] f obtain y h2
      where 2: "solveSudokuH fuel2 h1 rows = (Some y, h2)"
        "absOutcome h2 y = solveSudoku (absInput h rows)" by blast
    from 1 2 show "\<exists>x h1 y h2.
            solveSudokuH fuel1 h rows = (Some x, h1) \<and>
            solveSudokuH fuel2 h1 rows = (Some y, h2) \<and>
            absOutcome h1 x = solveSudoku (absInput h rows) \<and>
            absOutcome h2 y = absOutcome h1 x"
      by simp
  qed
qed

text \<open>
  A run of the store model. The rows of a grid with two 5s in its first row lie at the
  addresses 0 to 8 and the array of the rows at address 9. The call returns the ConflictError
  result; the copy of the first row, at address 10, is left with its first cell cleared,
  the ten arrays of the caller are as before, and a second call gives ConflictError again.
\<close>
theorem input_untouched_witness:
  "wfInput (heapOfGrid twoFives) (HRef 9) \<and>
   fst (solveSudokuH 0 (heapOfGrid twoFives) (HRef 9)) = Some (Inr (hfailure conflictError)) \<and>
   snd (solveSudokuH 0 (heapOfGrid twoFives) (HRef 9)) ! 10 ! 0 = HNum 0 \<and>
   fst (solveSudokuH 0 (snd (solveSudokuH 0 (heapOfGrid twoFives) (HRef 9))) (HRef 9)) =
     Some (Inr (hfailure conflictError)) \<and>
   take (length (heapOfGrid twoFives)) (snd (solveSudokuH 0 (heapOfGrid twoFives) (HRef 9))) =
     heapOfGrid twoFives \<and>
   (\<exists>n. \<forall>fuel1 fuel2. n \<le> fuel1 \<and> n \<le> fuel2 \<longrightarrow>
      (\<exists>x h1 y h2.
         solveSudokuH fuel1 (heapOfGrid twoFives) (HRef 9) = (Some x, h1) \<and>
         solveSudokuH fuel2 h1 (HRef 9) = (Some y, h2) \<and>
         absOutcome h1 x = solveSudoku (absInput (heapOfGrid twoFives) (HRef 9)) \<and>
         absOutcome h2 y = absOutcome h1 x))"
proof -
  have w: "wfInput (heapOfGrid twoFives) (HRef 9)" by code_simp
  have r: "fst (solveSudokuH 0 (heapOfGrid twoFives) (HRef 9)) = Some (Inr (hfailure conflictError))"
    "snd (solveSudokuH 0 (heapOfGrid twoFives) (HRef 9)) ! 10 ! 0 = HNum 0"
    "fst (solveSudokuH 0 (snd (solveSudokuH 0 (heapOfGrid twoFives) (HRef 9))) (HRef 9)) =
       Some (Inr (hfailure conflictError))"
    by code_simp+
  from input_untouched [of "heapOfGrid twoFives" 0 "HRef 9"] w r show ?thesis by blast
qed

end
